theory Spec2Isabelle
  imports Complex_Main
begin

text \<open>
  The candle aggregation of the dashboard component \<^verbatim>\<open>GoldRushHyperliquidUI.tsx\<close>:
  trades of the exchange folded into one-minute candles, candle batches of the indexing
  service merged by timestamp into a second series, and the metrics that compare the two.
  The state updaters of the component are pure functions of the previous state and are
  modelled as such; transport, rendering and the list of raw trades are left out.
\<close>

section \<open>JavaScript numbers\<close>

text \<open>
  The component computes with JavaScript numbers. A number is modelled as a finite value
  or one of the three special values of IEEE arithmetic. Finite values are rationals and
  finite arithmetic is exact: rounding to 53 bits, overflow to an infinity and the sign of
  zero are left out of the model. The special values follow the language: a NaN operand
  gives NaN, \<open>x / 0\<close> is an infinity (NaN when \<open>x\<close> is zero too), and NaN is
  equal to nothing, itself included.
\<close>

datatype jsnum = Fin rat | PInf | NInf | NaN

text \<open>\<open>a === b\<close> on two numbers.\<close>

fun js_eq :: "jsnum \<Rightarrow> jsnum \<Rightarrow> bool" where
  "js_eq (Fin a) (Fin b) = (a = b)"
| "js_eq PInf PInf = True"
| "js_eq NInf NInf = True"
| "js_eq _ _ = False"

text \<open>\<open>Math.max(a, b)\<close> and \<open>Math.min(a, b)\<close>.\<close>

fun js_max :: "jsnum \<Rightarrow> jsnum \<Rightarrow> jsnum" where
  "js_max NaN _ = NaN"
| "js_max _ NaN = NaN"
| "js_max PInf _ = PInf"
| "js_max _ PInf = PInf"
| "js_max NInf y = y"
| "js_max x NInf = x"
| "js_max (Fin a) (Fin b) = Fin (max a b)"

fun js_min :: "jsnum \<Rightarrow> jsnum \<Rightarrow> jsnum" where
  "js_min NaN _ = NaN"
| "js_min _ NaN = NaN"
| "js_min NInf _ = NInf"
| "js_min _ NInf = NInf"
| "js_min PInf y = y"
| "js_min x PInf = x"
| "js_min (Fin a) (Fin b) = Fin (min a b)"

text \<open>\<open>a + b\<close>, \<open>-a\<close>, \<open>a - b\<close>, \<open>Math.abs(a)\<close>.\<close>

fun js_add :: "jsnum \<Rightarrow> jsnum \<Rightarrow> jsnum" where
  "js_add NaN _ = NaN"
| "js_add _ NaN = NaN"
| "js_add PInf NInf = NaN"
| "js_add NInf PInf = NaN"
| "js_add PInf _ = PInf"
| "js_add _ PInf = PInf"
| "js_add NInf _ = NInf"
| "js_add _ NInf = NInf"
| "js_add (Fin a) (Fin b) = Fin (a + b)"

fun js_neg :: "jsnum \<Rightarrow> jsnum" where
  "js_neg (Fin a) = Fin (- a)"
| "js_neg PInf = NInf"
| "js_neg NInf = PInf"
| "js_neg NaN = NaN"

definition js_sub :: "jsnum \<Rightarrow> jsnum \<Rightarrow> jsnum" where
  "js_sub a b = js_add a (js_neg b)"

fun js_abs :: "jsnum \<Rightarrow> jsnum" where
  "js_abs (Fin a) = Fin \<bar>a\<bar>"
| "js_abs PInf = PInf"
| "js_abs NInf = PInf"
| "js_abs NaN = NaN"

text \<open>
  \<open>a / b\<close>. Division by zero is no fault in JavaScript: a non-zero dividend gives an
  infinity of its sign, \<open>0 / 0\<close> gives NaN (the zero divisor is taken as \<open>+0\<close>).
\<close>

fun js_div :: "jsnum \<Rightarrow> jsnum \<Rightarrow> jsnum" where
  "js_div NaN _ = NaN"
| "js_div _ NaN = NaN"
| "js_div (Fin a) (Fin b) =
     (if b = 0 then (if a = 0 then NaN else if 0 < a then PInf else NInf)
      else Fin (a / b))"
| "js_div (Fin a) PInf = Fin 0"
| "js_div (Fin a) NInf = Fin 0"
| "js_div PInf (Fin b) = (if b < 0 then NInf else PInf)"
| "js_div NInf (Fin b) = (if b < 0 then PInf else NInf)"
| "js_div PInf PInf = NaN"
| "js_div PInf NInf = NaN"
| "js_div NInf PInf = NaN"
| "js_div NInf NInf = NaN"

text \<open>\<open>a * b\<close>: an infinity times zero is NaN.\<close>

fun js_mul :: "jsnum \<Rightarrow> jsnum \<Rightarrow> jsnum" where
  "js_mul NaN _ = NaN"
| "js_mul _ NaN = NaN"
| "js_mul (Fin a) (Fin b) = Fin (a * b)"
| "js_mul PInf (Fin b) = (if b = 0 then NaN else if 0 < b then PInf else NInf)"
| "js_mul NInf (Fin b) = (if b = 0 then NaN else if 0 < b then NInf else PInf)"
| "js_mul (Fin a) PInf = (if a = 0 then NaN else if 0 < a then PInf else NInf)"
| "js_mul (Fin a) NInf = (if a = 0 then NaN else if 0 < a then NInf else PInf)"
| "js_mul PInf PInf = PInf"
| "js_mul PInf NInf = NInf"
| "js_mul NInf PInf = NInf"
| "js_mul NInf NInf = PInf"

text \<open>\<open>Math.floor(a)\<close> and \<open>Math.round(a)\<close> (a half rounds up).\<close>

fun js_floor :: "jsnum \<Rightarrow> jsnum" where
  "js_floor (Fin a) = Fin (of_int \<lfloor>a\<rfloor>)"
| "js_floor x = x"

fun js_round :: "jsnum \<Rightarrow> jsnum" where
  "js_round (Fin a) = Fin (of_int \<lfloor>a + 1 / 2\<rfloor>)"
| "js_round x = x"

text \<open>\<open>a > 0\<close>, the test a sort makes on the value of its comparator.\<close>

fun js_pos :: "jsnum \<Rightarrow> bool" where
  "js_pos (Fin a) = (0 < a)"
| "js_pos PInf = True"
| "js_pos _ = False"

fun is_fin :: "jsnum \<Rightarrow> bool" where
  "is_fin (Fin a) = True"
| "is_fin _ = False"

fun val :: "jsnum \<Rightarrow> rat" where
  "val (Fin a) = a"
| "val _ = 0"

section \<open>Arrays\<close>

text \<open>\<open>xs.slice(-n)\<close>: the last \<open>n\<close> elements, all of them when there are fewer.\<close>

definition slice_last :: "nat \<Rightarrow> 'a list \<Rightarrow> 'a list" where
  "slice_last n xs = drop (length xs - n) xs"

text \<open>\<open>xs.findIndex(p)\<close>: the first index whose element satisfies \<open>p\<close>; the
  source's \<open>-1\<close> is \<open>None\<close>.\<close>

fun findIndex :: "('a \<Rightarrow> bool) \<Rightarrow> 'a list \<Rightarrow> nat option" where
  "findIndex p [] = None"
| "findIndex p (x # xs) =
     (if p x then Some 0
      else case findIndex p xs of None \<Rightarrow> None | Some i \<Rightarrow> Some (Suc i))"

section \<open>Data\<close>

record candle =
  ts :: jsnum
  "open" :: jsnum
  high :: jsnum
  low :: jsnum
  close :: jsnum
  volume :: jsnum

text \<open>
  A trade as the exchange sends it: price and size are decimal strings, \<open>time\<close> is
  the epoch-millisecond integer the interface declares.
\<close>

record trade =
  coin :: string
  side :: string
  px :: string
  sz :: string
  time :: int
  hash :: string

text \<open>
  A record of the GoldRush payload. It is untyped in the source (\<open>c: any\<close>): a
  numeric field the payload lacks is \<open>None\<close>.
\<close>

record gr_record =
  r_timestamp :: string
  r_open :: "jsnum option"
  r_high :: "jsnum option"
  r_low :: "jsnum option"
  r_close :: "jsnum option"
  r_volume :: "jsnum option"

record metrics =
  matchedPct :: jsnum
  meanPriceBps :: jsnum
  avgLatencyDiffMs :: jsnum

record app_state =
  hlCandles :: "candle list"
  grCandles :: "candle list"
  logs :: "string list"
  metricsState :: metrics

section \<open>Hyperliquid trades into one-minute candles\<close>

text \<open>\<open>Math.floor(trade.time / 60000) * 60000\<close>\<close>

definition bucket_ts :: "int \<Rightarrow> jsnum" where
  "bucket_ts t = js_mul (js_floor (js_div (Fin (of_int t)) (Fin 60000))) (Fin 60000)"

text \<open>
  The updater given to \<open>setHlCandles\<close> for one trade. \<open>parseFloat\<close> is the
  language's function and a parameter here.
\<close>

definition hl_update :: "(string \<Rightarrow> jsnum) \<Rightarrow> candle list \<Rightarrow> trade \<Rightarrow> candle list" where
  "hl_update parseFloat prev t =
     (let tsv = bucket_ts (time t);
          price = parseFloat (px t);
          size = parseFloat (sz t)
      in if prev \<noteq> [] \<and> js_eq (ts (last prev)) tsv
         then butlast prev @
              [(last prev)\<lparr>high := js_max (high (last prev)) price,
                            low := js_min (low (last prev)) price,
                            close := price,
                            volume := js_add (volume (last prev)) size\<rparr>]
         else slice_last 100
                (prev @ [\<lparr>ts = tsv, open = price, high = price, low = price,
                           close = price, volume = size\<rparr>]))"

text \<open>\<open>newTrades.forEach\<close>: React applies the queued updaters in order.\<close>

definition hl_trades :: "(string \<Rightarrow> jsnum) \<Rightarrow> candle list \<Rightarrow> trade list \<Rightarrow> candle list" where
  "hl_trades parseFloat prev newTrades = foldl (hl_update parseFloat) prev newTrades"

text \<open>
  The handler \<open>ws.onmessage\<close>, as far as the candles go: only a message of the
  channel \<open>trades\<close> is aggregated.
\<close>

definition hl_onmessage ::
  "(string \<Rightarrow> jsnum) \<Rightarrow> string \<Rightarrow> trade list \<Rightarrow> candle list \<Rightarrow> candle list" where
  "hl_onmessage parseFloat channel newTrades prev =
     (if channel = ''trades'' then hl_trades parseFloat prev newTrades else prev)"

section \<open>GoldRush candles merged by timestamp\<close>

text \<open>A field of the payload read as a number: \<open>undefined\<close> is NaN in every
  arithmetic use, and the model stores NaN at once.\<close>

fun num_field :: "jsnum option \<Rightarrow> jsnum" where
  "num_field None = NaN"
| "num_field (Some x) = x"

text \<open>
  The candle built from one record. \<open>getTime\<close> stands for
  \<open>new Date(c.timestamp).getTime()\<close>, a parameter: it is NaN for a timestamp
  that is no date.
\<close>

definition to_candle :: "(string \<Rightarrow> jsnum) \<Rightarrow> gr_record \<Rightarrow> candle" where
  "to_candle getTime c =
     \<lparr>ts = getTime (r_timestamp c),
      open = num_field (r_open c),
      high = num_field (r_high c),
      low = num_field (r_low c),
      close = num_field (r_close c),
      volume = num_field (r_volume c)\<rparr>"

text \<open>The body of \<open>candles.forEach\<close>: replace the first entry of the same
  timestamp, or push.\<close>

definition gr_merge :: "candle list \<Rightarrow> candle \<Rightarrow> candle list" where
  "gr_merge newCandles c =
     (case findIndex (\<lambda>nc. js_eq (ts nc) (ts c)) newCandles of
        Some existsIndex \<Rightarrow> newCandles[existsIndex := c]
      | None \<Rightarrow> newCandles @ [c])"

text \<open>
  \<open>newCandles.sort((a, b) => a.ts - b.ts)\<close>. The language's sort is stable, puts
  \<open>a\<close> after \<open>b\<close> when the comparator is positive and reads a NaN comparator as
  zero. Where the comparator is consistent the result is the one of this insertion sort;
  with NaN among finite timestamps the order is left to the engine, and the model keeps
  the insertion sort.
\<close>

fun js_insert :: "candle \<Rightarrow> candle list \<Rightarrow> candle list" where
  "js_insert a [] = [a]"
| "js_insert a (b # bs) =
     (if js_pos (js_sub (ts a) (ts b)) then b # js_insert a bs else a # b # bs)"

definition js_sort :: "candle list \<Rightarrow> candle list" where
  "js_sort xs = foldr js_insert xs []"

text \<open>The updater given to \<open>setGrCandles\<close> for a batch.\<close>

definition gr_update :: "(string \<Rightarrow> jsnum) \<Rightarrow> candle list \<Rightarrow> gr_record list \<Rightarrow> candle list" where
  "gr_update getTime prev candles =
     slice_last 100
       (js_sort (foldl (\<lambda>newCandles c. gr_merge newCandles (to_candle getTime c)) prev candles))"

text \<open>\<open>addLog\<close>: newest first, fifty lines kept.\<close>

definition addLog :: "string \<Rightarrow> string list \<Rightarrow> string list" where
  "addLog msg prev = take 50 (msg # prev)"

text \<open>
  The handler \<open>next\<close>. \<open>candles\<close> is the value found in the payload:
  \<open>None\<close> when it is no array; \<open>json\<close> is \<open>JSON.stringify(data)\<close>.
\<close>

definition gr_next ::
  "(string \<Rightarrow> jsnum) \<Rightarrow> string \<Rightarrow> gr_record list option \<Rightarrow> app_state \<Rightarrow> app_state" where
  "gr_next getTime json candles s =
     (case candles of
        Some cs \<Rightarrow>
          (if length cs > 0 then s\<lparr>grCandles := gr_update getTime (grCandles s) cs\<rparr>
           else s\<lparr>logs := addLog (''GR: Received empty or invalid data: '' @ json) (logs s)\<rparr>)
      | None \<Rightarrow> s\<lparr>logs := addLog (''GR: Received empty or invalid data: '' @ json) (logs s)\<rparr>)"

section \<open>Metrics\<close>

text \<open>One round of \<open>hlCandles.forEach\<close> on the counters
  \<open>(matches, priceDiffSum, count)\<close>.\<close>

definition metrics_step ::
  "candle list \<Rightarrow> nat \<times> jsnum \<times> nat \<Rightarrow> candle \<Rightarrow> nat \<times> jsnum \<times> nat" where
  "metrics_step gr acc hl =
     (case acc of (matches, priceDiffSum, count) \<Rightarrow>
        (case find (\<lambda>c. js_eq (ts c) (ts hl)) gr of
           Some g \<Rightarrow>
             (matches + 1,
              js_add priceDiffSum (js_div (js_abs (js_sub (close hl) (close g))) (close hl)),
              count + 1)
         | None \<Rightarrow> (matches, priceDiffSum, count)))"

text \<open>The metrics effect: it returns early, leaving the metrics as they are, while
  either series is empty.\<close>

definition metrics_effect :: "metrics \<Rightarrow> candle list \<Rightarrow> candle list \<Rightarrow> metrics" where
  "metrics_effect m hl gr =
     (if length hl = 0 \<or> length gr = 0 then m
      else case foldl (metrics_step gr) (0, Fin 0, 0) hl of
        (matches, priceDiffSum, count) \<Rightarrow>
          \<lparr>matchedPct =
             (if count > 0
              then js_round (js_mul (js_div (Fin (of_nat matches)) (Fin (of_nat (length hl)))) (Fin 100))
              else Fin 0),
           meanPriceBps =
             (if count > 0 then js_mul (js_div priceDiffSum (Fin (of_nat count))) (Fin 10000)
              else Fin 0),
           avgLatencyDiffMs = Fin 0\<rparr>)"

section \<open>The component as a state machine\<close>

definition init_state :: app_state where
  "init_state =
     \<lparr>hlCandles = [], grCandles = [], logs = [],
      metricsState = \<lparr>matchedPct = Fin 0, meanPriceBps = Fin 0, avgLatencyDiffMs = Fin 0\<rparr>\<rparr>"

datatype event =
  HlMessage string "trade list"
| GrNext string "gr_record list option"

text \<open>An event is handled, then the metrics effect runs on the new series.\<close>

definition handle :: "(string \<Rightarrow> jsnum) \<Rightarrow> (string \<Rightarrow> jsnum) \<Rightarrow> app_state \<Rightarrow> event \<Rightarrow> app_state" where
  "handle parseFloat getTime s e =
     (case e of
        HlMessage channel newTrades \<Rightarrow>
          s\<lparr>hlCandles := hl_onmessage parseFloat channel newTrades (hlCandles s)\<rparr>
      | GrNext json candles \<Rightarrow> gr_next getTime json candles s)"

definition app_step :: "(string \<Rightarrow> jsnum) \<Rightarrow> (string \<Rightarrow> jsnum) \<Rightarrow> app_state \<Rightarrow> event \<Rightarrow> app_state" where
  "app_step parseFloat getTime s e =
     (let s' = handle parseFloat getTime s e
      in s'\<lparr>metricsState := metrics_effect (metricsState s') (hlCandles s') (grCandles s')\<rparr>)"

definition run :: "(string \<Rightarrow> jsnum) \<Rightarrow> (string \<Rightarrow> jsnum) \<Rightarrow> event list \<Rightarrow> app_state" where
  "run parseFloat getTime es = foldl (app_step parseFloat getTime) init_state es"

section \<open>Notions of the specification\<close>

text \<open>The numbers \<open>parseFloat\<close> gives for a trade's price and size, when finite.\<close>

definition price_of :: "(string \<Rightarrow> jsnum) \<Rightarrow> trade \<Rightarrow> rat" where
  "price_of parseFloat t = val (parseFloat (px t))"

definition size_of :: "(string \<Rightarrow> jsnum) \<Rightarrow> trade \<Rightarrow> rat" where
  "size_of parseFloat t = val (parseFloat (sz t))"

definition pos_num :: "jsnum \<Rightarrow> bool" where
  "pos_num x = (is_fin x \<and> 0 < val x)"

text \<open>A trade of bucket \<open>b\<close> with positive finite price and size.\<close>

definition trade_in_bucket :: "(string \<Rightarrow> jsnum) \<Rightarrow> jsnum \<Rightarrow> trade \<Rightarrow> bool" where
  "trade_in_bucket parseFloat b t =
     (bucket_ts (time t) = b \<and> pos_num (parseFloat (px t)) \<and> pos_num (parseFloat (sz t)))"

text \<open>
  The candle the specification describes for a non-empty run of trades of one bucket:
  first price, greatest price, least price, last price, sum of the sizes.
\<close>

definition ohlcv :: "(string \<Rightarrow> jsnum) \<Rightarrow> jsnum \<Rightarrow> trade list \<Rightarrow> candle" where
  "ohlcv parseFloat b trades =
     \<lparr>ts = b,
      open = Fin (price_of parseFloat (hd trades)),
      high = Fin (Max (set (map (price_of parseFloat) trades))),
      low = Fin (Min (set (map (price_of parseFloat) trades))),
      close = Fin (price_of parseFloat (last trades)),
      volume = Fin (sum_list (map (size_of parseFloat) trades))\<rparr>"

text \<open>A candle \<open>c\<close> continued by the candle \<open>d\<close> of later trades of its bucket:
  \<open>c\<close> keeps its timestamp and its open.\<close>

definition merged :: "candle \<Rightarrow> candle \<Rightarrow> candle" where
  "merged c d = c\<lparr>high := js_max (high c) (high d), low := js_min (low c) (low d),
                  close := close d, volume := js_add (volume c) (volume d)\<rparr>"

text \<open>\<open>a < b\<close> on two numbers.\<close>

fun js_lt :: "jsnum \<Rightarrow> jsnum \<Rightarrow> bool" where
  "js_lt (Fin a) (Fin b) = (a < b)"
| "js_lt (Fin a) PInf = True"
| "js_lt NInf (Fin b) = True"
| "js_lt NInf PInf = True"
| "js_lt _ _ = False"





text \<open>The candle the updater appends for a trade that opens a bucket.\<close>

definition new_candle :: "(string \<Rightarrow> jsnum) \<Rightarrow> trade \<Rightarrow> candle" where
  "new_candle parseFloat t =
     \<lparr>ts = bucket_ts (time t), open = parseFloat (px t), high = parseFloat (px t),
      low = parseFloat (px t), close = parseFloat (px t), volume = parseFloat (sz t)\<rparr>"

text \<open>
  The reference the specification gives for the metrics. The matched candles of series A
  are those whose timestamp occurs in series B; the deviation of a matched candle is
  \<open>|closeA - closeB| / closeA\<close> against the first candle of B with its timestamp.
\<close>

definition matched :: "candle list \<Rightarrow> candle list \<Rightarrow> candle list" where
  "matched gr hl = filter (\<lambda>a. find (\<lambda>c. js_eq (ts c) (ts a)) gr \<noteq> None) hl"

definition deviation :: "candle list \<Rightarrow> candle \<Rightarrow> jsnum" where
  "deviation gr a =
     (case find (\<lambda>c. js_eq (ts c) (ts a)) gr of
        Some g \<Rightarrow> js_div (js_abs (js_sub (close a) (close g))) (close a)
      | None \<Rightarrow> Fin 0)"

text \<open>The sum of a list of numbers, added from the left to 0 as the loop does.\<close>

definition js_sum :: "jsnum list \<Rightarrow> jsnum" where
  "js_sum xs = foldl js_add (Fin 0) xs"

text \<open>
  The metrics of two non-empty series: the matched share as a percentage rounded to an
  integer, the mean deviation in basis points, the latency field.
\<close>

definition reconcile :: "candle list \<Rightarrow> candle list \<Rightarrow> metrics" where
  "reconcile hl gr =
     (let n = length (matched gr hl) in
      \<lparr>matchedPct =
         (if n > 0 then Fin (of_int \<lfloor>(of_nat n :: rat) / of_nat (length hl) * 100 + 1 / 2\<rfloor>) else Fin 0),
       meanPriceBps =
         (if n > 0
          then js_mul (js_div (js_sum (map (deviation gr) (matched gr hl))) (Fin (of_nat n)))
                 (Fin 10000)
          else Fin 0),
       avgLatencyDiffMs = Fin 0\<rparr>)"

definition zero_metrics :: metrics where
  "zero_metrics = \<lparr>matchedPct = Fin 0, meanPriceBps = Fin 0, avgLatencyDiffMs = Fin 0\<rparr>"


text \<open>The timestamp of a candle as a rational, where it is finite.\<close>

definition key :: "candle \<Rightarrow> rat" where
  "key c = val (ts c)"

text \<open>A series all of whose timestamps are finite numbers.\<close>

definition fin_ts :: "candle list \<Rightarrow> bool" where
  "fin_ts xs = (\<forall>c\<in>set xs. is_fin (ts c))"

text \<open>
  The merge rule seen from one entry \<open>c\<close> of the series: an incoming candle \<open>d\<close>
  of its timestamp takes its place, and a batch \<open>ds\<close> revises it record by record.
\<close>

definition replace_by :: "candle \<Rightarrow> candle \<Rightarrow> candle" where
  "replace_by d c = (if ts c = ts d then d else c)"

definition revise :: "candle list \<Rightarrow> candle \<Rightarrow> candle" where
  "revise ds c = foldl (\<lambda>c d. replace_by d c) c ds"

text \<open>The merged and sorted series of an ingest, before it is cut to 100 entries.\<close>

definition gr_merged :: "(string \<Rightarrow> jsnum) \<Rightarrow> candle list \<Rightarrow> gr_record list \<Rightarrow> candle list" where
  "gr_merged getTime prev candles =
     js_sort (foldl (\<lambda>newCandles c. gr_merge newCandles (to_candle getTime c)) prev candles)"

text \<open>What \<open>xs.slice(-n)\<close> leaves out: the entries before the last \<open>n\<close>.\<close>

definition evicted :: "nat \<Rightarrow> 'a list \<Rightarrow> 'a list" where
  "evicted n xs = take (length xs - n) xs"

section \<open>Inputs of the examples\<close>

text \<open>\<open>parseFloat\<close> at the strings the examples use.\<close>

definition example_parseFloat :: "string \<Rightarrow> jsnum" where
  "example_parseFloat s =
     (if s = ''1'' then Fin 1 else if s = ''2'' then Fin 2 else if s = ''5'' then Fin 5
      else if s = ''6'' then Fin 6 else if s = ''7'' then Fin 7 else NaN)"

definition example_trade :: "int \<Rightarrow> string \<Rightarrow> string \<Rightarrow> trade" where
  "example_trade t p s = \<lparr>coin = ''HYPE'', side = ''B'', px = p, sz = s, time = t, hash = ''0x0''\<rparr>"

text \<open>A candle of the examples: all four prices \<open>p\<close>, volume 1.\<close>

definition flat_candle :: "rat \<Rightarrow> rat \<Rightarrow> candle" where
  "flat_candle t p = \<lparr>ts = Fin t, open = Fin p, high = Fin p, low = Fin p, close = Fin p, volume = Fin 1\<rparr>"

text \<open>\<open>new Date(s).getTime()\<close> at the timestamps the examples use; NaN stands for
  a text that is no date.\<close>

definition example_getTime :: "string \<Rightarrow> jsnum" where
  "example_getTime s =
     (if s = ''1970-01-01T00:00:30Z'' then Fin 30000
      else if s = ''1970-01-01T00:01:00Z'' then Fin 60000
      else if s = ''1970-01-01T00:02:00Z'' then Fin 120000
      else if s = ''1970-01-01T00:03:00Z'' then Fin 180000
      else NaN)"

definition example_record :: "string \<Rightarrow> jsnum option \<Rightarrow> gr_record" where
  "example_record t c =
     \<lparr>r_timestamp = t, r_open = Some (Fin 10), r_high = Some (Fin 12), r_low = Some (Fin 9),
      r_close = c, r_volume = Some (Fin 3)\<rparr>"

text \<open>One trade a minute, at minutes \<open>1\<close> to \<open>n\<close>, each of price 1 and size 1, and
  the candles they aggregate to.\<close>

definition minute_trades :: "nat \<Rightarrow> trade list" where
  "minute_trades n = map (\<lambda>i. example_trade (60000 * int i) ''1'' ''1'') [1..<Suc n]"

definition minute_candles :: "nat \<Rightarrow> candle list" where
  "minute_candles n = map (\<lambda>i. flat_candle (of_nat i * 60000) 1) [1..<Suc n]"

section \<open>Properties\<close>

subsection \<open>Numbers and arrays\<close>

lemma bucket_ts_int: "bucket_ts t = Fin (of_int (t div 60000 * 60000))"
proof -
  have "\<lfloor>(of_int t :: rat) / 60000\<rfloor> = t div 60000"
    using floor_divide_of_int_eq [of t 60000, where ?'a = rat] by simp
  then show ?thesis by (simp add: bucket_ts_def)
qed

lemma slice_last_length: "length (slice_last n xs) \<le> n"
  by (simp add: slice_last_def)

lemma slice_last_snoc:
  "0 < n \<Longrightarrow> slice_last n (xs @ [x]) = slice_last (n - 1) xs @ [x]"
  by (cases n) (simp_all add: slice_last_def Suc_diff_le)

lemma pos_num_Fin: "pos_num x \<Longrightarrow> x = Fin (val x)"
  by (cases x) (simp_all add: pos_num_def)

lemma js_max_assoc_Fin: "js_max (js_max x (Fin a)) (Fin b) = js_max x (Fin (max a b))"
  by (cases x) (simp_all add: max.assoc)

lemma js_min_assoc_Fin: "js_min (js_min x (Fin a)) (Fin b) = js_min x (Fin (min a b))"
  by (cases x) (simp_all add: min.assoc)

lemma js_add_assoc_Fin: "js_add (js_add x (Fin a)) (Fin b) = js_add x (Fin (a + b))"
  by (cases x) (simp_all add: add.assoc)

lemma hl_update_tail:
  assumes "js_eq (ts c) (bucket_ts (time t))"
  shows "hl_update pf (xs @ [c]) t =
         xs @ [c\<lparr>high := js_max (high c) (pf (px t)), low := js_min (low c) (pf (px t)),
                 close := pf (px t), volume := js_add (volume c) (pf (sz t))\<rparr>]"
  using assms by (simp add: hl_update_def Let_def)

lemma hl_update_new:
  assumes "prev = [] \<or> \<not> js_eq (ts (last prev)) (bucket_ts (time t))"
  shows "hl_update pf prev t =
         slice_last 100 (prev @ [\<lparr>ts = bucket_ts (time t), open = pf (px t), high = pf (px t),
            low = pf (px t), close = pf (px t), volume = pf (sz t)\<rparr>])"
  using assms by (auto simp add: hl_update_def Let_def)

lemma hl_trades_snoc: "hl_trades pf prev (trades @ [t]) = hl_update pf (hl_trades pf prev trades) t"
  by (simp add: hl_trades_def)

lemma js_eq_bucket: "js_eq (bucket_ts t) (bucket_ts t)"
  by (simp add: bucket_ts_int)

lemma hl_trades_tail:
  assumes "trades \<noteq> []" and "\<forall>t\<in>set trades. trade_in_bucket pf (ts c) t"
  shows "hl_trades pf (xs @ [c]) trades = xs @ [merged c (ohlcv pf (ts c) trades)]"
  using assms
proof (induction trades rule: rev_nonempty_induct)
  case (single t)
  then have bt: "bucket_ts (time t) = ts c" and p: "pf (px t) = Fin (price_of pf t)"
    and s: "pf (sz t) = Fin (size_of pf t)"
    by (simp_all add: trade_in_bucket_def price_of_def size_of_def pos_num_Fin)
  have eq: "js_eq (ts c) (bucket_ts (time t))"
    using js_eq_bucket [of "time t"] by (simp add: bt)
  show ?case
    using hl_update_tail [OF eq, of pf xs]
    by (simp add: hl_trades_def merged_def ohlcv_def p s)
next
  case (snoc t trades)
  then have bt: "bucket_ts (time t) = ts c" and p: "pf (px t) = Fin (price_of pf t)"
    and s: "pf (sz t) = Fin (size_of pf t)"
    by (simp_all add: trade_in_bucket_def price_of_def size_of_def pos_num_Fin)
  let ?d = "merged c (ohlcv pf (ts c) trades)"
  have IH: "hl_trades pf (xs @ [c]) trades = xs @ [?d]"
    using snoc by simp
  have eq: "js_eq (ts ?d) (bucket_ts (time t))"
    using js_eq_bucket [of "time t"] by (simp add: bt merged_def)
  have ne: "set (map (price_of pf) trades) \<noteq> {}" using snoc.hyps by simp
  have "hl_trades pf (xs @ [c]) (trades @ [t]) = hl_update pf (xs @ [?d]) t"
    by (simp add: hl_trades_snoc IH)
  also have "\<dots> = xs @ [?d\<lparr>high := js_max (high ?d) (pf (px t)), low := js_min (low ?d) (pf (px t)),
                 close := pf (px t), volume := js_add (volume ?d) (pf (sz t))\<rparr>]"
    by (rule hl_update_tail [OF eq])
  also have "\<dots> = xs @ [merged c (ohlcv pf (ts c) (trades @ [t]))]"
    using ne snoc.hyps
    by (simp add: merged_def ohlcv_def p s js_max_assoc_Fin js_min_assoc_Fin js_add_assoc_Fin
        max.commute min.commute)
  finally show ?case .
qed

lemma merged_first:
  assumes "rest \<noteq> []"
  shows "merged \<lparr>ts = b, open = Fin (price_of pf t), high = Fin (price_of pf t),
            low = Fin (price_of pf t), close = Fin (price_of pf t), volume = Fin (size_of pf t)\<rparr>
          (ohlcv pf b rest) = ohlcv pf b (t # rest)"
  using assms by (simp add: merged_def ohlcv_def)

lemma hl_trades_new:
  assumes "trades \<noteq> []" and "\<forall>t\<in>set trades. trade_in_bucket pf b t"
    and "prev = [] \<or> \<not> js_eq (ts (last prev)) b"
  shows "hl_trades pf prev trades = slice_last 100 (prev @ [ohlcv pf b trades])"
proof (cases trades)
  case Nil
  with assms show ?thesis by simp
next
  case (Cons t rest)
  with assms have bt: "bucket_ts (time t) = b" and p: "pf (px t) = Fin (price_of pf t)"
    and s: "pf (sz t) = Fin (size_of pf t)"
    by (simp_all add: trade_in_bucket_def price_of_def size_of_def pos_num_Fin)
  let ?c = "\<lparr>ts = b, open = Fin (price_of pf t), high = Fin (price_of pf t),
            low = Fin (price_of pf t), close = Fin (price_of pf t), volume = Fin (size_of pf t)\<rparr>"
  have first: "hl_update pf prev t = slice_last 99 prev @ [?c]"
    using hl_update_new [of prev t pf] assms(3) by (simp add: bt p s slice_last_snoc)
  show ?thesis
  proof (cases "rest = []")
    case True
    then show ?thesis
      using first Cons by (simp add: hl_trades_def ohlcv_def slice_last_snoc)
  next
    case False
    have "\<forall>t\<in>set rest. trade_in_bucket pf (ts ?c) t"
      using assms(2) Cons by simp
    from hl_trades_tail [OF False this, of "slice_last 99 prev"]
    have "hl_trades pf (slice_last 99 prev @ [?c]) rest
          = slice_last 99 prev @ [ohlcv pf b (t # rest)]"
      by (simp add: merged_first [OF False])
    then show ?thesis
      using first Cons by (simp add: hl_trades_def slice_last_snoc)
  qed
qed


lemma hl_trades_same:
  assumes "trades \<noteq> []" and "\<forall>t\<in>set trades. trade_in_bucket pf b t"
    and "prev \<noteq> []" and "js_eq (ts (last prev)) b"
  shows "hl_trades pf prev trades = butlast prev @ [merged (last prev) (ohlcv pf b trades)]"
proof -
  from assms(1,2) have "bucket_ts (time (hd trades)) = b"
    by (cases trades) (simp_all add: trade_in_bucket_def)
  then have "is_fin b" by (auto simp: bucket_ts_int)
  with assms(4) have b: "ts (last prev) = b"
    by (cases "ts (last prev)"; cases b) simp_all
  have "hl_trades pf (butlast prev @ [last prev]) trades
        = butlast prev @ [merged (last prev) (ohlcv pf (ts (last prev)) trades)]"
    by (rule hl_trades_tail [OF assms(1)]) (use assms(2) b in simp)
  then show ?thesis using assms(3) b by simp
qed

lemma hl_scenario:
  assumes "pf ''5'' = Fin 5" "pf ''6'' = Fin 6" "pf ''7'' = Fin 7" "pf ''1'' = Fin 1" "pf ''2'' = Fin 2"
  shows "hl_trades pf []
          [example_trade 1000 ''5'' ''1'', example_trade 2000 ''6'' ''2'',
           example_trade 61000 ''7'' ''1''] =
         [\<lparr>ts = Fin 0, open = Fin 5, high = Fin 6, low = Fin 5, close = Fin 6, volume = Fin 3\<rparr>,
          \<lparr>ts = Fin 60000, open = Fin 7, high = Fin 7, low = Fin 7, close = Fin 7, volume = Fin 1\<rparr>]"
  using assms
  by (simp add: hl_trades_def hl_update_def bucket_ts_int example_trade_def slice_last_def Let_def)

text \<open>
  C1, as amended. Trades of one bucket \<open>b\<close> with positive finite prices and sizes,
  ingested in order:
  \<^item> into a series that is empty or whose tail candle is of another bucket, they append
    the candle \<open>ohlcv\<close> of the run (open the first price, high the greatest, low the
    least, close the last, volume the sum of the sizes), the series cut to its last 100;
  \<^item> into a series whose tail candle is of bucket \<open>b\<close>, they continue that candle: it
    keeps its open, its high and low take in the run's, its close is the last price and
    its volume grows by the sum of the sizes;
  \<^item> the three trades of the scenario give the two candles of the specification.
\<close>

theorem hl_bucket_candle:
  "(trades \<noteq> [] \<and> (\<forall>t\<in>set trades. trade_in_bucket pf b t) \<and>
      (prev = [] \<or> \<not> js_eq (ts (last prev)) b)
     \<longrightarrow> hl_trades pf prev trades = slice_last 100 (prev @ [ohlcv pf b trades]))
   \<and> (trades \<noteq> [] \<and> (\<forall>t\<in>set trades. trade_in_bucket pf b t) \<and>
      prev \<noteq> [] \<and> js_eq (ts (last prev)) b
     \<longrightarrow> hl_trades pf prev trades = butlast prev @ [merged (last prev) (ohlcv pf b trades)])
   \<and> (pf ''5'' = Fin 5 \<and> pf ''6'' = Fin 6 \<and> pf ''7'' = Fin 7 \<and> pf ''1'' = Fin 1 \<and> pf ''2'' = Fin 2
     \<longrightarrow> hl_trades pf []
          [example_trade 1000 ''5'' ''1'', example_trade 2000 ''6'' ''2'',
           example_trade 61000 ''7'' ''1''] =
         [\<lparr>ts = Fin 0, open = Fin 5, high = Fin 6, low = Fin 5, close = Fin 6, volume = Fin 3\<rparr>,
          \<lparr>ts = Fin 60000, open = Fin 7, high = Fin 7, low = Fin 7, close = Fin 7, volume = Fin 1\<rparr>])"
  using hl_trades_new [of trades pf b prev] hl_trades_same [of trades pf b prev]
    hl_scenario [of pf]
  by blast

theorem hl_bucket_candle_witness:
  "hl_trades example_parseFloat []
     [example_trade 1000 ''5'' ''1'', example_trade 2000 ''6'' ''2''] =
     [\<lparr>ts = Fin 0, open = Fin 5, high = Fin 6, low = Fin 5, close = Fin 6, volume = Fin 3\<rparr>]
   \<and> hl_trades example_parseFloat
       [\<lparr>ts = Fin 0, open = Fin 5, high = Fin 5, low = Fin 5, close = Fin 5, volume = Fin 1\<rparr>]
       [example_trade 2000 ''6'' ''2'', example_trade 3000 ''2'' ''1''] =
     [\<lparr>ts = Fin 0, open = Fin 5, high = Fin 6, low = Fin 2, close = Fin 2, volume = Fin 4\<rparr>]
   \<and> hl_trades example_parseFloat []
          [example_trade 1000 ''5'' ''1'', example_trade 2000 ''6'' ''2'',
           example_trade 61000 ''7'' ''1''] =
         [\<lparr>ts = Fin 0, open = Fin 5, high = Fin 6, low = Fin 5, close = Fin 6, volume = Fin 3\<rparr>,
          \<lparr>ts = Fin 60000, open = Fin 7, high = Fin 7, low = Fin 7, close = Fin 7, volume = Fin 1\<rparr>]"
  using hl_bucket_candle [of "[example_trade 1000 ''5'' ''1'', example_trade 2000 ''6'' ''2'']"
      example_parseFloat "Fin 0" "[]"]
    hl_bucket_candle [of "[example_trade 2000 ''6'' ''2'', example_trade 3000 ''2'' ''1'']"
      example_parseFloat "Fin 0"
      "[\<lparr>ts = Fin 0, open = Fin 5, high = Fin 5, low = Fin 5, close = Fin 5, volume = Fin 1\<rparr>]"]
  by (simp add: trade_in_bucket_def bucket_ts_int pos_num_def example_parseFloat_def
      example_trade_def ohlcv_def merged_def price_of_def size_of_def slice_last_def)

text \<open>
  C1 as it is written fails where the tail candle is of the trades' bucket: the open
  stays the tail's 5 (the first trade's price is 6) and the volume is 3 (the sizes sum
  to 2).
\<close>

theorem hl_bucket_open_counterexample:
  "js_eq (ts \<lparr>ts = Fin 0, open = Fin 5, high = Fin 5, low = Fin 5, close = Fin 5, volume = Fin 1\<rparr>)
         (bucket_ts (time (example_trade 2000 ''6'' ''2'')))
   \<and> example_parseFloat (px (example_trade 2000 ''6'' ''2'')) = Fin 6
   \<and> example_parseFloat (sz (example_trade 2000 ''6'' ''2'')) = Fin 2
   \<and> hl_trades example_parseFloat
       [\<lparr>ts = Fin 0, open = Fin 5, high = Fin 5, low = Fin 5, close = Fin 5, volume = Fin 1\<rparr>]
       [example_trade 2000 ''6'' ''2''] =
     [\<lparr>ts = Fin 0, open = Fin 5, high = Fin 6, low = Fin 5, close = Fin 6, volume = Fin 3\<rparr>]"
  by (simp add: hl_trades_def hl_update_def bucket_ts_int example_parseFloat_def
      example_trade_def Let_def)

subsection \<open>The invariant of the aggregated candles\<close>


lemma set_slice_last: "set (slice_last n xs) \<subseteq> set xs"
  by (simp add: slice_last_def set_drop_subset)









subsection \<open>A trade later than its bucket\<close>

lemma hl_update_late:
  assumes "prev \<noteq> []" and "js_lt (bucket_ts (time t)) (ts (last prev))"
  shows "hl_update pf prev t = slice_last 100 (prev @ [new_candle pf t])"
proof -
  have "\<not> js_eq (ts (last prev)) (bucket_ts (time t))"
    using assms(2) by (cases "ts (last prev)") (auto simp: bucket_ts_int)
  then show ?thesis
    by (simp add: hl_update_def Let_def new_candle_def)
qed

text \<open>
  C5, as amended. A trade whose bucket lies strictly before the tail candle's is not
  dropped: the updater appends a new candle for the earlier bucket after the tail (open,
  high, low and close the trade's price, volume its size) and keeps the last 100. No
  candle of the series is rewritten, the new candle is the new tail, and the series has
  changed.
\<close>

theorem hl_late_trade_appended:
  "prev \<noteq> [] \<and> js_lt (bucket_ts (time t)) (ts (last prev))
     \<longrightarrow> hl_update pf prev t = slice_last 100 (prev @ [new_candle pf t])
         \<and> last (hl_update pf prev t) = new_candle pf t
         \<and> hl_update pf prev t \<noteq> prev"
proof (intro impI conjI)
  assume a: "prev \<noteq> [] \<and> js_lt (bucket_ts (time t)) (ts (last prev))"
  then show eq: "hl_update pf prev t = slice_last 100 (prev @ [new_candle pf t])"
    using hl_update_late by blast
  show l: "last (hl_update pf prev t) = new_candle pf t"
    by (simp add: eq slice_last_snoc)
  have "last prev \<noteq> new_candle pf t"
    using a by (cases "ts (last prev)") (auto simp: new_candle_def bucket_ts_int)
  with l show "hl_update pf prev t \<noteq> prev" by metis
qed

theorem hl_late_trade_appended_witness:
  "hl_update example_parseFloat
     [\<lparr>ts = Fin 60000, open = Fin 7, high = Fin 7, low = Fin 7, close = Fin 7, volume = Fin 1\<rparr>]
     (example_trade 1000 ''5'' ''1'') =
   [\<lparr>ts = Fin 60000, open = Fin 7, high = Fin 7, low = Fin 7, close = Fin 7, volume = Fin 1\<rparr>,
    new_candle example_parseFloat (example_trade 1000 ''5'' ''1'')]
   \<and> new_candle example_parseFloat (example_trade 1000 ''5'' ''1'') =
     \<lparr>ts = Fin 0, open = Fin 5, high = Fin 5, low = Fin 5, close = Fin 5, volume = Fin 1\<rparr>"
  using hl_late_trade_appended [of
     "[\<lparr>ts = Fin 60000, open = Fin 7, high = Fin 7, low = Fin 7, close = Fin 7, volume = Fin 1\<rparr>]"
     "example_trade 1000 ''5'' ''1''" example_parseFloat]
  by (simp add: bucket_ts_int example_trade_def slice_last_def new_candle_def
      example_parseFloat_def)

text \<open>
  C5 as it is written fails: a trade at 1000 ms after the candle of bucket 60000 leaves a
  series of two candles, the second of bucket 0.
\<close>

theorem hl_late_trade_counterexample:
  "js_lt (bucket_ts (time (example_trade 1000 ''5'' ''1'')))
     (ts \<lparr>ts = Fin 60000, open = Fin 7, high = Fin 7, low = Fin 7, close = Fin 7, volume = Fin 1\<rparr>)
   \<and> hl_update example_parseFloat
     [\<lparr>ts = Fin 60000, open = Fin 7, high = Fin 7, low = Fin 7, close = Fin 7, volume = Fin 1\<rparr>]
     (example_trade 1000 ''5'' ''1'') =
   [\<lparr>ts = Fin 60000, open = Fin 7, high = Fin 7, low = Fin 7, close = Fin 7, volume = Fin 1\<rparr>,
    \<lparr>ts = Fin 0, open = Fin 5, high = Fin 5, low = Fin 5, close = Fin 5, volume = Fin 1\<rparr>]"
  by (simp add: hl_update_def bucket_ts_int example_trade_def slice_last_def
      example_parseFloat_def Let_def)

subsection \<open>The metrics\<close>

lemma metrics_fold:
  "foldl (metrics_step gr) (m, s, c) hl =
     (m + length (matched gr hl), foldl js_add s (map (deviation gr) (matched gr hl)),
      c + length (matched gr hl))"
proof (induction hl arbitrary: m s c)
  case Nil
  show ?case by (simp add: matched_def)
next
  case (Cons a hl)
  show ?case
  proof (cases "find (\<lambda>c. js_eq (ts c) (ts a)) gr")
    case None
    then show ?thesis
      using Cons.IH [of m s c] by (simp add: metrics_step_def matched_def)
  next
    case (Some g)
    then show ?thesis
      using Cons.IH [of "m + 1" "js_add s (js_div (js_abs (js_sub (close a) (close g))) (close a))" "c + 1"]
      by (simp add: metrics_step_def matched_def deviation_def)
  qed
qed

lemma metrics_effect_empty: "hl = [] \<or> gr = [] \<Longrightarrow> metrics_effect m hl gr = m"
  by (auto simp add: metrics_effect_def)

lemma metrics_effect_reconcile:
  assumes "hl \<noteq> []" and "gr \<noteq> []"
  shows "metrics_effect m hl gr = reconcile hl gr"
proof -
  have len: "(of_nat (length hl) :: rat) \<noteq> 0" using assms(1) by simp
  show ?thesis
    using assms len
    by (simp add: metrics_effect_def metrics_fold reconcile_def js_sum_def Let_def)
qed



subsection \<open>Lengths, and the series that stay non-empty\<close>

lemma findIndex_None: "findIndex p xs = None \<longleftrightarrow> (\<forall>x\<in>set xs. \<not> p x)"
  by (induction xs) (auto split: option.splits)

lemma findIndex_Some:
  "findIndex p xs = Some i \<Longrightarrow> i < length xs \<and> p (xs ! i) \<and> (\<forall>j<i. \<not> p (xs ! j))"
proof (induction xs arbitrary: i)
  case Nil
  then show ?case by simp
next
  case (Cons x xs)
  show ?case
  proof (cases "p x")
    case True
    with Cons.prems show ?thesis by simp
  next
    case False
    with Cons.prems obtain k where k: "findIndex p xs = Some k" and i: "i = Suc k"
      by (auto split: option.splits)
    from Cons.IH [OF k] False i show ?thesis
      by (auto simp: nth_Cons split: nat.splits)
  qed
qed





lemma gr_update_fold:
  "gr_update gt prev cs = slice_last 100 (js_sort (foldl gr_merge prev (map (to_candle gt) cs)))"
  by (simp add: gr_update_def foldl_map)



lemma length_gr_update: "length (gr_update gt prev cs) \<le> 100"
  by (simp add: gr_update_def slice_last_length)


lemma length_hl_update: "length prev \<le> 100 \<Longrightarrow> length (hl_update pf prev t) \<le> 100"
  by (auto simp add: hl_update_def Let_def slice_last_length)


lemma length_hl_trades: "length prev \<le> 100 \<Longrightarrow> length (hl_trades pf prev trades) \<le> 100"
  by (induction trades rule: rev_induct) (simp_all add: hl_trades_snoc length_hl_update, simp add: hl_trades_def)

lemma run_snoc: "run pf gt (es @ [e]) = app_step pf gt (run pf gt es) e"
  by (simp add: run_def)



lemma handle_metrics: "metricsState (handle pf gt s e) = metricsState s"
  by (cases e) (auto simp add: handle_def gr_next_def split: option.splits)

lemma app_step_fields:
  "hlCandles (app_step pf gt s e) = hlCandles (handle pf gt s e)"
  "grCandles (app_step pf gt s e) = grCandles (handle pf gt s e)"
  "metricsState (app_step pf gt s e) =
     metrics_effect (metricsState s) (hlCandles (handle pf gt s e)) (grCandles (handle pf gt s e))"
  by (simp_all add: app_step_def Let_def handle_metrics)


lemma metrics_effect_latency:
  "avgLatencyDiffMs (metrics_effect m hl gr) =
     (if hl = [] \<or> gr = [] then avgLatencyDiffMs m else Fin 0)"
  by (auto simp add: metrics_effect_empty metrics_effect_reconcile reconcile_def Let_def)

lemma run_latency: "avgLatencyDiffMs (metricsState (run pf gt es)) = Fin 0"
  by (induction es rule: rev_induct)
    (simp_all add: run_snoc app_step_fields metrics_effect_latency, simp add: run_def init_state_def)

lemma run_lengths:
  "length (hlCandles (run pf gt es)) \<le> 100 \<and> length (grCandles (run pf gt es)) \<le> 100"
proof (induction es rule: rev_induct)
  case Nil
  show ?case by (simp add: run_def init_state_def)
next
  case (snoc e es)
  then show ?case
    by (cases e)
      (auto simp add: run_snoc app_step_fields handle_def hl_onmessage_def gr_next_def
        length_hl_trades length_gr_update split: option.splits)
qed




subsection \<open>The latency field\<close>

text \<open>
  C10. The metrics have a third field, avgLatencyDiffMs. It is 0 in the initial state;
  the metrics effect either leaves the metrics as they are (a series is empty) or writes
  0; so it is 0 in every state the component reaches, whatever the events were.
\<close>

theorem latency_metric_constant:
  "avgLatencyDiffMs (metricsState init_state) = Fin 0
   \<and> avgLatencyDiffMs (metrics_effect m hl gr) =
       (if hl = [] \<or> gr = [] then avgLatencyDiffMs m else Fin 0)
   \<and> avgLatencyDiffMs (metricsState (run pf gt es)) = Fin 0"
  by (simp add: metrics_effect_latency run_latency) (simp add: init_state_def)

theorem latency_metric_constant_witness:
  "avgLatencyDiffMs (metrics_effect zero_metrics [flat_candle 60000 10] [flat_candle 60000 11]) = Fin 0
   \<and> avgLatencyDiffMs (metricsState (run example_parseFloat example_getTime
        [HlMessage ''trades'' [example_trade 1000 ''5'' ''1''],
         GrNext ''{}'' (Some [example_record ''1970-01-01T00:01:00Z'' (Some (Fin 11))])])) = Fin 0"
  using latency_metric_constant [of zero_metrics "[flat_candle 60000 10]" "[flat_candle 60000 11]"
      example_parseFloat example_getTime
      "[HlMessage ''trades'' [example_trade 1000 ''5'' ''1''],
         GrNext ''{}'' (Some [example_record ''1970-01-01T00:01:00Z'' (Some (Fin 11))])]"]
  by simp

subsection \<open>A close of zero\<close>

lemma js_add_not_NInf: "a \<noteq> NInf \<Longrightarrow> b \<noteq> NInf \<Longrightarrow> js_add a b \<noteq> NInf"
  by (cases a; cases b) simp_all




lemma foldl_js_add_not_NInf:
  "s \<noteq> NInf \<Longrightarrow> \<forall>x\<in>set xs. x \<noteq> NInf \<Longrightarrow> foldl js_add s xs \<noteq> NInf"
  by (induction xs arbitrary: s) (simp_all add: js_add_not_NInf)
















subsection \<open>The merge of a batch, for finite timestamps\<close>

lemma js_eq_fin: "is_fin a \<Longrightarrow> js_eq a b \<longleftrightarrow> a = b"
  by (cases a; cases b) simp_all

lemma key_eq: "is_fin (ts a) \<Longrightarrow> is_fin (ts b) \<Longrightarrow> key a = key b \<longleftrightarrow> ts a = ts b"
  by (cases "ts a"; cases "ts b") (simp_all add: key_def)

lemma js_pos_sub: "is_fin (ts a) \<Longrightarrow> is_fin (ts b) \<Longrightarrow>
   js_pos (js_sub (ts a) (ts b)) \<longleftrightarrow> \<not> key a \<le> key b"
  by (cases "ts a"; cases "ts b") (auto simp add: key_def js_sub_def)

lemma js_insert_insort:
  "is_fin (ts a) \<Longrightarrow> fin_ts xs \<Longrightarrow> js_insert a xs = insort_key key a xs"
  by (induction xs) (simp_all add: fin_ts_def js_pos_sub)

lemma js_sort_sort_key: "fin_ts xs \<Longrightarrow> js_sort xs = sort_key key xs"
proof (induction xs)
  case Nil
  show ?case by (simp add: js_sort_def)
next
  case (Cons a xs)
  then have "fin_ts xs" and a: "is_fin (ts a)" by (simp_all add: fin_ts_def)
  then have "js_sort xs = sort_key key xs" using Cons.IH by simp
  moreover have "fin_ts (sort_key key xs)" using \<open>fin_ts xs\<close> by (simp add: fin_ts_def)
  ultimately show ?case
    using a by (simp add: js_sort_def js_insert_insort)
qed

lemma gr_merge_replace:
  assumes "distinct (map ts xs)" and "fin_ts xs"
  shows "gr_merge xs d =
     (if ts d \<in> ts ` set xs then map (replace_by d) xs else xs @ [d])"
proof (cases "findIndex (\<lambda>nc. js_eq (ts nc) (ts d)) xs")
  case None
  then have "\<forall>x\<in>set xs. ts x \<noteq> ts d"
    using assms(2) by (auto simp add: findIndex_None fin_ts_def js_eq_fin)
  then have "ts d \<notin> ts ` set xs" by force
  then show ?thesis using None by (simp add: gr_merge_def)
next
  case (Some i)
  from findIndex_Some [OF Some] have i: "i < length xs" and e: "js_eq (ts (xs ! i)) (ts d)"
    by simp_all
  then have t: "ts (xs ! i) = ts d"
    using assms(2) by (simp add: fin_ts_def js_eq_fin)
  then have mem: "ts d \<in> ts ` set xs" using i by (metis imageI nth_mem)
  have "xs[i := d] = map (replace_by d) xs"
  proof (rule nth_equalityI)
    show "length (xs[i := d]) = length (map (replace_by d) xs)" by simp
  next
    fix j assume "j < length (xs[i := d])"
    then have j: "j < length xs" by simp
    show "xs[i := d] ! j = map (replace_by d) xs ! j"
    proof (cases "j = i")
      case True
      then show ?thesis using i t by (simp add: replace_by_def)
    next
      case False
      then have "map ts xs ! j \<noteq> map ts xs ! i"
        using assms(1) i j by (simp add: nth_eq_iff_index_eq del: nth_map)
      then have "ts (xs ! j) \<noteq> ts d" using i j t by simp
      then show ?thesis using False j by (simp add: replace_by_def)
    qed
  qed
  then show ?thesis using Some mem by (simp add: gr_merge_def)
qed

lemma ts_replace_by: "ts (replace_by d c) = ts c"
  by (simp add: replace_by_def)

lemma ts_revise: "ts (revise ds c) = ts c"
  unfolding revise_def by (induction ds arbitrary: c) (simp_all add: ts_replace_by)

lemma ts_comp_revise: "ts \<circ> revise ds = ts"
  by (rule ext) (simp add: ts_revise)

lemma revise_Cons: "revise (d # ds) c = revise ds (replace_by d c)"
  by (simp add: revise_def)

lemma revise_snoc: "revise (ds @ [d]) c = (if ts c = ts d then d else revise ds c)"
  using ts_revise [of ds c] by (simp add: revise_def replace_by_def)

lemma revise_Nil: "revise [] c = c"
  by (simp add: revise_def)

lemma revise_other: "ts c \<notin> ts ` set ds \<Longrightarrow> revise ds c = c"
  by (induction ds rule: rev_induct) (simp add: revise_Nil, simp add: revise_snoc)

lemma revise_same_ts: "ts a = ts b \<Longrightarrow> ts a \<in> ts ` set ds \<Longrightarrow> revise ds a = revise ds b"
proof (induction ds rule: rev_induct)
  case Nil
  then show ?case by simp
next
  case (snoc d ds)
  show ?case
  proof (cases "ts a = ts d")
    case True
    then show ?thesis using snoc.prems(1) by (simp add: revise_snoc)
  next
    case False
    then have "ts a \<in> ts ` set ds" using snoc.prems(2) by auto
    then show ?thesis using False snoc by (simp add: revise_snoc)
  qed
qed

lemma revise_idem: "revise ds (revise ds c) = revise ds c"
proof (cases "ts c \<in> ts ` set ds")
  case True
  then show ?thesis
  proof (induction ds rule: rev_induct)
    case Nil
    then show ?case by simp
  next
    case (snoc d ds)
    show ?case
    proof (cases "ts c = ts d")
      case True
      then show ?thesis by (simp add: revise_snoc)
    next
      case False
      then have "ts c \<in> ts ` set ds" using snoc.prems by auto
      then show ?thesis using False snoc.IH by (simp add: revise_snoc ts_revise)
    qed
  qed
next
  case False
  then show ?thesis by (simp add: revise_other)
qed

lemma fin_ts_simps:
  "fin_ts []" "fin_ts (x # xs) \<longleftrightarrow> is_fin (ts x) \<and> fin_ts xs"
  "fin_ts (xs @ ys) \<longleftrightarrow> fin_ts xs \<and> fin_ts ys"
  by (auto simp add: fin_ts_def)

lemma fin_ts_map_replace: "fin_ts xs \<Longrightarrow> is_fin (ts d) \<Longrightarrow> fin_ts (map (replace_by d) xs)"
  by (auto simp add: fin_ts_def replace_by_def)

lemma gr_fold_shape:
  assumes "distinct (map ts xs)" and "fin_ts xs" and "fin_ts ds"
  shows "\<exists>N. foldl gr_merge xs ds = map (revise ds) xs @ N
           \<and> distinct (map ts N)
           \<and> ts ` set N \<subseteq> ts ` set ds - ts ` set xs
           \<and> ts ` set ds \<subseteq> ts ` set xs \<union> ts ` set N
           \<and> (\<forall>n\<in>set N. revise ds n = n)"
  using assms
proof (induction ds arbitrary: xs)
  case Nil
  show ?case by (simp add: revise_Nil)
next
  case (Cons d ds)
  from Cons.prems have fd: "is_fin (ts d)" and fds: "fin_ts ds" by (simp_all add: fin_ts_simps)
  show ?case
  proof (cases "ts d \<in> ts ` set xs")
    case True
    let ?xs = "map (replace_by d) xs"
    have step: "gr_merge xs d = ?xs"
      using gr_merge_replace [OF Cons.prems(1,2)] True by simp
    have keys: "map ts ?xs = map ts xs" by (simp add: ts_replace_by)
    then have kset: "ts ` set ?xs = ts ` set xs" by (metis list.set_map)
    have "distinct (map ts ?xs)" unfolding keys by (rule Cons.prems(1))
    moreover have "fin_ts ?xs" using Cons.prems(2) fd by (rule fin_ts_map_replace)
    ultimately obtain N where N: "foldl gr_merge ?xs ds = map (revise ds) ?xs @ N"
      "distinct (map ts N)" "ts ` set N \<subseteq> ts ` set ds - ts ` set ?xs"
      "ts ` set ds \<subseteq> ts ` set ?xs \<union> ts ` set N" "\<forall>n\<in>set N. revise ds n = n"
      using Cons.IH [of ?xs] fds by blast
    have 1: "foldl gr_merge xs (d # ds) = map (revise (d # ds)) xs @ N"
      using N(1) step by (simp add: revise_Cons)
    have 3: "ts ` set N \<subseteq> ts ` set (d # ds) - ts ` set xs"
      using N(3) kset by auto
    have 4: "ts ` set (d # ds) \<subseteq> ts ` set xs \<union> ts ` set N"
      using N(4) kset True by auto
    have 5: "\<forall>n\<in>set N. revise (d # ds) n = n"
    proof
      fix n assume n: "n \<in> set N"
      then have "ts n \<notin> ts ` set xs" using 3 by auto
      then have "ts n \<noteq> ts d" using True by auto
      then show "revise (d # ds) n = n"
        using N(5) n by (simp add: revise_Cons replace_by_def)
    qed
    from 1 N(2) 3 4 5 show ?thesis by blast
  next
    case False
    let ?xs = "xs @ [d]"
    have step: "gr_merge xs d = ?xs"
      using gr_merge_replace [OF Cons.prems(1,2)] False by simp
    have "distinct (map ts ?xs)" using Cons.prems(1) False by auto
    moreover have "fin_ts ?xs" using Cons.prems(2) fd by (simp add: fin_ts_simps)
    ultimately obtain N where N: "foldl gr_merge ?xs ds = map (revise ds) ?xs @ N"
      "distinct (map ts N)" "ts ` set N \<subseteq> ts ` set ds - ts ` set ?xs"
      "ts ` set ds \<subseteq> ts ` set ?xs \<union> ts ` set N" "\<forall>n\<in>set N. revise ds n = n"
      using Cons.IH [of ?xs] fds by blast
    let ?N = "revise ds d # N"
    have same: "map (revise ds) xs = map (revise (d # ds)) xs"
    proof (rule map_cong [OF refl])
      fix c assume "c \<in> set xs"
      then have "ts c \<noteq> ts d" using False by (metis imageI)
      then show "revise ds c = revise (d # ds) c" by (simp add: revise_Cons replace_by_def)
    qed
    have 1: "foldl gr_merge xs (d # ds) = map (revise (d # ds)) xs @ ?N"
      using N(1) step same by simp
    have nd: "ts d \<notin> ts ` set N" using N(3) by auto
    have 2: "distinct (map ts ?N)"
      using N(2) nd by (simp add: ts_revise)
    have 3: "ts ` set ?N \<subseteq> ts ` set (d # ds) - ts ` set xs"
      using N(3) False by (auto simp add: ts_revise)
    have 4: "ts ` set (d # ds) \<subseteq> ts ` set xs \<union> ts ` set ?N"
      using N(4) by (auto simp add: ts_revise)
    have 5: "\<forall>n\<in>set ?N. revise (d # ds) n = n"
    proof
      fix n assume n: "n \<in> set ?N"
      show "revise (d # ds) n = n"
      proof (cases "n = revise ds d")
        case True
        then have "replace_by d n = d" by (simp add: replace_by_def ts_revise)
        then show ?thesis using True by (simp add: revise_Cons)
      next
        case False
        then have nN: "n \<in> set N" using n by simp
        then have "ts n \<noteq> ts d" using nd by (metis imageI)
        then show ?thesis using N(5) nN by (simp add: revise_Cons replace_by_def)
      qed
    qed
    from 1 2 3 4 5 show ?thesis by blast
  qed
qed

lemma gr_fold_facts:
  assumes "distinct (map ts xs)" and "fin_ts xs" and "fin_ts ds"
  shows "distinct (map ts (foldl gr_merge xs ds))"
    and "ts ` set (foldl gr_merge xs ds) = ts ` set xs \<union> ts ` set ds"
    and "\<forall>c\<in>set (foldl gr_merge xs ds). revise ds c = c"
    and "fin_ts (foldl gr_merge xs ds)"
proof -
  from gr_fold_shape [OF assms] obtain N where N:
    "foldl gr_merge xs ds = map (revise ds) xs @ N"
    "distinct (map ts N)" "ts ` set N \<subseteq> ts ` set ds - ts ` set xs"
    "ts ` set ds \<subseteq> ts ` set xs \<union> ts ` set N" "\<forall>n\<in>set N. revise ds n = n"
    by blast
  have keys: "map ts (map (revise ds) xs) = map ts xs" by (simp add: ts_revise)
  then have kset: "ts ` set (map (revise ds) xs) = ts ` set xs" by (metis list.set_map)
  show "distinct (map ts (foldl gr_merge xs ds))"
    using N(2,3) assms(1) by (auto simp add: N(1) ts_comp_revise)
  show k: "ts ` set (foldl gr_merge xs ds) = ts ` set xs \<union> ts ` set ds"
    unfolding N(1) using N(3,4) kset by (auto simp add: image_Un)
  show "\<forall>c\<in>set (foldl gr_merge xs ds). revise ds c = c"
    using N(5) by (auto simp add: N(1) revise_idem)
  show "fin_ts (foldl gr_merge xs ds)"
    unfolding fin_ts_def
  proof
    fix c assume "c \<in> set (foldl gr_merge xs ds)"
    then have "ts c \<in> ts ` set xs \<union> ts ` set ds" using k by blast
    then show "is_fin (ts c)" using assms(2,3) by (auto simp add: fin_ts_def)
  qed
qed

subsection \<open>Sorting and cutting\<close>

lemma sorted_key_unique:
  assumes "sorted (map key xs)" and "distinct (map key xs)"
    and "sorted (map key ys)" and "distinct (map key ys)" and "set xs = set ys"
  shows "xs = ys"
proof -
  have "set (map key xs) = set (map key ys)" using assms(5) by simp
  then have "map key xs = map key ys"
    using assms(1-4) by (intro sorted_distinct_set_unique)
  moreover have "inj_on key (set xs \<union> set ys)"
    using assms(2,5) by (simp add: distinct_map)
  ultimately show ?thesis by (simp add: inj_on_map_eq_map)
qed

lemma distinct_key: "fin_ts xs \<Longrightarrow> distinct (map key xs) \<longleftrightarrow> distinct (map ts xs)"
proof (induction xs)
  case Nil
  show ?case by simp
next
  case (Cons a xs)
  then have fa: "is_fin (ts a)" and fx: "fin_ts xs" by (simp_all add: fin_ts_simps)
  have "key a \<in> key ` set xs \<longleftrightarrow> ts a \<in> ts ` set xs"
  proof
    assume "key a \<in> key ` set xs"
    then obtain b where b: "b \<in> set xs" "key a = key b" by blast
    then have "is_fin (ts b)" using fx by (simp add: fin_ts_def)
    then have "ts a = ts b" using fa b(2) by (simp add: key_eq)
    then show "ts a \<in> ts ` set xs" using b(1) by blast
  next
    assume "ts a \<in> ts ` set xs"
    then obtain b where b: "b \<in> set xs" "ts a = ts b" by blast
    then have "key a = key b" by (simp add: key_def)
    then show "key a \<in> key ` set xs" using b(1) by blast
  qed
  then show ?case using Cons.IH [OF fx] by simp
qed

lemma distinct_key_sort: "distinct (map key (sort_key key xs)) \<longleftrightarrow> distinct (map key xs)"
  by (simp add: distinct_map)

lemma sort_key_append_low:
  assumes "sorted (map key X)" and "distinct (map key (X @ N))"
    and "\<forall>n\<in>set N. \<forall>x\<in>set X. key n < key x"
  shows "sort_key key (X @ N) = sort_key key N @ X"
proof (rule sorted_key_unique)
  show "sorted (map key (sort_key key (X @ N)))" by simp
  show "distinct (map key (sort_key key (X @ N)))"
    using assms(2) by (simp only: distinct_key_sort)
  show "sorted (map key (sort_key key N @ X))"
    using assms(1,3) by (auto simp add: sorted_append less_imp_le)
  have "distinct (map key (sort_key key N))"
    using assms(2) by (simp add: distinct_key_sort)
  then show "distinct (map key (sort_key key N @ X))"
    using assms(2,3) by auto
  show "set (sort_key key (X @ N)) = set (sort_key key N @ X)" by auto
qed

lemma slice_last_short: "length xs \<le> n \<Longrightarrow> slice_last n xs = xs"
  by (simp add: slice_last_def)

lemma slice_last_append: "length xs = n \<Longrightarrow> slice_last n (ys @ xs) = xs"
  by (simp add: slice_last_def)

lemma slice_last_top:
  assumes "sorted (map key A)" and "distinct (map key A)"
    and "c \<in> set A" and "c \<notin> set (slice_last n A)"
  shows "length (slice_last n A) = n" and "\<forall>x\<in>set (slice_last n A). key c < key x"
proof -
  let ?k = "length A - n"
  have split: "A = take ?k A @ drop ?k A" by simp
  have c: "c \<in> set (take ?k A)"
    using assms(3,4) split unfolding slice_last_def by (metis Un_iff set_append)
  then have "0 < ?k" by (cases ?k) simp_all
  then show "length (slice_last n A) = n" by (simp add: slice_last_def)
  have s: "sorted (map key (take ?k A) @ map key (drop ?k A))"
    using assms(1) by (metis split map_append)
  have d: "distinct (map key (take ?k A) @ map key (drop ?k A))"
    using assms(2) by (metis split map_append)
  show "\<forall>x\<in>set (slice_last n A). key c < key x"
  proof
    fix x assume "x \<in> set (slice_last n A)"
    then have x: "x \<in> set (drop ?k A)" by (simp add: slice_last_def)
    have "key c \<le> key x" using s c x by (auto simp add: sorted_append)
    moreover have "key c \<noteq> key x" using d c x by auto
    ultimately show "key c < key x" by simp
  qed
qed

lemma fin_ts_subset: "fin_ts xs \<Longrightarrow> set ys \<subseteq> set xs \<Longrightarrow> fin_ts ys"
  by (auto simp add: fin_ts_def)

lemma distinct_map_drop: "distinct (map f xs) \<Longrightarrow> distinct (map f (drop n xs))"
  by (simp add: drop_map [symmetric] del: drop_map)

lemma sorted_map_drop: "sorted (map f xs) \<Longrightarrow> sorted (map f (drop n xs))"
  by (simp add: drop_map [symmetric] sorted_wrt_drop del: drop_map)

lemma ingest_series:
  assumes "distinct (map ts prev)" and "fin_ts prev" and "fin_ts cs"
  defines "M \<equiv> foldl gr_merge prev cs"
  defines "S \<equiv> slice_last 100 (js_sort M)"
  shows "S = slice_last 100 (sort_key key M)"
    and "set S \<subseteq> set M" and "fin_ts S" and "distinct (map ts S)" and "sorted (map key S)"
    and "\<forall>c\<in>set M. c \<notin> set S \<longrightarrow> length S = 100 \<and> (\<forall>x\<in>set S. key c < key x)"
proof -
  have fM: "fin_ts M" and dM: "distinct (map ts M)"
    unfolding M_def using gr_fold_facts [OF assms(1-3)] by simp_all
  show S: "S = slice_last 100 (sort_key key M)"
    unfolding S_def using fM by (simp add: js_sort_sort_key)
  show sub: "set S \<subseteq> set M"
    unfolding S using set_slice_last [of 100 "sort_key key M"] by simp
  show fS: "fin_ts S" using fM sub by (rule fin_ts_subset)
  have dk: "distinct (map key (sort_key key M))"
    using dM fM by (simp add: distinct_key_sort distinct_key)
  then have "distinct (map key S)"
    unfolding S slice_last_def by (rule distinct_map_drop)
  then show "distinct (map ts S)" using fS by (simp add: distinct_key)
  show "sorted (map key S)"
    unfolding S slice_last_def by (rule sorted_map_drop) simp
  show "\<forall>c\<in>set M. c \<notin> set S \<longrightarrow> length S = 100 \<and> (\<forall>x\<in>set S. key c < key x)"
  proof (intro ballI impI)
    fix c assume "c \<in> set M" and "c \<notin> set S"
    then have "c \<in> set (sort_key key M)" and "c \<notin> set (slice_last 100 (sort_key key M))"
      using S by simp_all
    from slice_last_top [OF sorted_sort_key dk this]
    show "length S = 100 \<and> (\<forall>x\<in>set S. key c < key x)" using S by simp
  qed
qed

lemma reingest:
  assumes d: "distinct (map ts prev)" and f: "fin_ts prev" and fc: "fin_ts cs"
    and fc2: "fin_ts cs2" and sub: "ts ` set cs2 \<subseteq> ts ` set prev \<union> ts ` set cs"
  defines "S \<equiv> slice_last 100 (js_sort (foldl gr_merge prev cs))"
  shows "slice_last 100 (js_sort (foldl gr_merge S cs2)) = map (revise cs2) S"
proof -
  let ?M = "foldl gr_merge prev cs"
  note S = ingest_series [OF d f fc, folded S_def]
  have kM: "ts ` set ?M = ts ` set prev \<union> ts ` set cs"
    using gr_fold_facts(2) [OF d f fc] .
  from gr_fold_shape [OF S(4) S(3) fc2] obtain N where N:
    "foldl gr_merge S cs2 = map (revise cs2) S @ N"
    "distinct (map ts N)" "ts ` set N \<subseteq> ts ` set cs2 - ts ` set S"
    by blast
  let ?X = "map (revise cs2) S"
  have kX: "map ts ?X = map ts S" by (simp add: ts_comp_revise)
  have keyX: "map key ?X = map key S"
    by (simp add: key_def ts_revise)
  have fM2: "fin_ts (foldl gr_merge S cs2)" and dM2: "distinct (map ts (foldl gr_merge S cs2))"
    using gr_fold_facts [OF S(4) S(3) fc2] by simp_all
  have low: "\<forall>n\<in>set N. length S = 100 \<and> (\<forall>x\<in>set ?X. key n < key x)"
  proof
    fix n assume n: "n \<in> set N"
    then have "ts n \<in> ts ` set cs2" and nS: "ts n \<notin> ts ` set S" using N(3) by auto
    then have "ts n \<in> ts ` set ?M" using sub kM by auto
    then obtain c where c: "c \<in> set ?M" "ts c = ts n" by auto
    then have "c \<notin> set S" using nS by (metis imageI)
    with S(6) c(1) have l: "length S = 100" and lt: "\<forall>x\<in>set S. key c < key x" by simp_all
    have "key n = key c" using c(2) by (simp add: key_def)
    then have "\<forall>x\<in>set ?X. key n < key x"
      using lt by (auto simp add: key_def ts_revise)
    with l show "length S = 100 \<and> (\<forall>x\<in>set ?X. key n < key x)" by simp
  qed
  have "distinct (map key (?X @ N))"
    using dM2 fM2 unfolding N(1) by (simp only: distinct_key)
  moreover have "sorted (map key ?X)" unfolding keyX by (rule S(5))
  ultimately have sorted: "sort_key key (?X @ N) = sort_key key N @ ?X"
    using low by (intro sort_key_append_low) simp_all
  have "js_sort (foldl gr_merge S cs2) = sort_key key N @ ?X"
    using fM2 sorted by (simp add: js_sort_sort_key N(1))
  moreover have "slice_last 100 (sort_key key N @ ?X) = ?X"
  proof (cases "N = []")
    case True
    have "length S \<le> 100" unfolding S(1) by (rule slice_last_length)
    then show ?thesis using True by (simp add: slice_last_short)
  next
    case False
    then obtain n where "n \<in> set N" by (cases N) auto
    then have "length ?X = 100" using low by simp
    then show ?thesis by (rule slice_last_append)
  qed
  ultimately show ?thesis by simp
qed

subsection \<open>Ingesting a batch again\<close>

lemma gr_update_series:
  assumes "distinct (map ts prev)" and "fin_ts prev" and "fin_ts (map (to_candle gt) batch)"
  shows "distinct (map ts (gr_update gt prev batch))" and "fin_ts (gr_update gt prev batch)"
  using ingest_series(3,4) [OF assms] by (simp_all add: gr_update_fold)

lemma gr_update_twice:
  assumes "distinct (map ts prev)" and "fin_ts prev" and "fin_ts (map (to_candle gt) batch)"
  shows "gr_update gt (gr_update gt prev batch) batch = gr_update gt prev batch"
proof -
  let ?cs = "map (to_candle gt) batch"
  let ?S = "slice_last 100 (js_sort (foldl gr_merge prev ?cs))"
  have "slice_last 100 (js_sort (foldl gr_merge ?S ?cs)) = map (revise ?cs) ?S"
    using assms by (intro reingest) auto
  moreover have "map (revise ?cs) ?S = ?S"
  proof (rule map_idI)
    fix c assume "c \<in> set ?S"
    then have "c \<in> set (foldl gr_merge prev ?cs)"
      using ingest_series(2) [OF assms] by blast
    then show "revise ?cs c = c" using gr_fold_facts(3) [OF assms] by blast
  qed
  ultimately show ?thesis by (simp add: gr_update_fold)
qed

lemma revise_filter: "revise ds c = revise (filter (\<lambda>d. ts d = ts c) ds) c"
proof (induction ds arbitrary: c)
  case Nil
  show ?case by simp
next
  case (Cons d ds)
  show ?case
  proof (cases "ts d = ts c")
    case True
    then show ?thesis
      using Cons.IH [of d] by (simp add: revise_Cons replace_by_def)
  next
    case False
    then show ?thesis
      using Cons.IH [of c] by (simp add: revise_Cons replace_by_def)
  qed
qed

lemma filter_update_other:
  "i < length xs \<Longrightarrow> \<not> P (xs ! i) \<Longrightarrow> \<not> P x \<Longrightarrow> filter P (xs[i := x]) = filter P xs"
proof (induction xs arbitrary: i)
  case Nil
  then show ?case by simp
next
  case (Cons a xs)
  then show ?case by (cases i) simp_all
qed

lemma gr_update_revised:
  assumes d: "distinct (map ts prev)" and f: "fin_ts prev"
    and fb: "fin_ts (map (to_candle gt) batch)" and i: "i < length batch"
  shows "gr_update gt (gr_update gt prev batch) (batch[i := (batch ! i)\<lparr>r_close := x\<rparr>]) =
         map (revise (map (to_candle gt) (batch[i := (batch ! i)\<lparr>r_close := x\<rparr>])))
           (gr_update gt prev batch)"
    and "\<forall>c\<in>set (gr_update gt prev batch). ts c \<noteq> gt (r_timestamp (batch ! i)) \<longrightarrow>
           revise (map (to_candle gt) (batch[i := (batch ! i)\<lparr>r_close := x\<rparr>])) c = c"
proof -
  let ?cs = "map (to_candle gt) batch"
  let ?r = "(batch ! i)\<lparr>r_close := x\<rparr>"
  let ?cs2 = "map (to_candle gt) (batch[i := ?r])"
  let ?S = "slice_last 100 (js_sort (foldl gr_merge prev ?cs))"
  have tr: "ts (to_candle gt ?r) = ts (?cs ! i)"
    using i by (simp add: to_candle_def)
  have cs2: "?cs2 = ?cs[i := to_candle gt ?r]" by (simp add: map_update)
  have mem: "?cs ! i \<in> set ?cs" using i by simp
  have sub: "ts ` set ?cs2 \<subseteq> ts ` set ?cs"
  proof
    fix t assume "t \<in> ts ` set ?cs2"
    then obtain c where c: "c \<in> set (?cs[i := to_candle gt ?r])" "t = ts c"
      unfolding cs2 by blast
    then have "c = to_candle gt ?r \<or> c \<in> set ?cs"
      using set_update_subset_insert [of ?cs i "to_candle gt ?r"] by blast
    then show "t \<in> ts ` set ?cs" using c(2) tr mem by (metis imageI)
  qed
  have fc2: "fin_ts ?cs2"
    unfolding fin_ts_def
  proof
    fix c assume "c \<in> set ?cs2"
    then have "ts c \<in> ts ` set ?cs" using sub by blast
    then show "is_fin (ts c)" using fb by (auto simp add: fin_ts_def)
  qed
  have "slice_last 100 (js_sort (foldl gr_merge ?S ?cs2)) = map (revise ?cs2) ?S"
    using d f fb fc2 sub by (intro reingest) auto
  then show "gr_update gt (gr_update gt prev batch) (batch[i := ?r]) =
         map (revise ?cs2) (gr_update gt prev batch)"
    by (simp add: gr_update_fold)
  show "\<forall>c\<in>set (gr_update gt prev batch). ts c \<noteq> gt (r_timestamp (batch ! i)) \<longrightarrow>
           revise ?cs2 c = c"
  proof (intro ballI impI)
    fix c assume c: "c \<in> set (gr_update gt prev batch)"
      and ne: "ts c \<noteq> gt (r_timestamp (batch ! i))"
    have t: "ts (?cs ! i) = gt (r_timestamp (batch ! i))"
      using i by (simp add: to_candle_def)
    have "filter (\<lambda>d. ts d = ts c) (?cs[i := to_candle gt ?r]) = filter (\<lambda>d. ts d = ts c) ?cs"
      using i ne t tr by (intro filter_update_other) auto
    then have "revise ?cs2 c = revise ?cs c"
      using revise_filter [of ?cs2 c] revise_filter [of ?cs c] by (simp only: cs2)
    moreover have "c \<in> set (foldl gr_merge prev ?cs)"
      using c ingest_series(2) [OF d f fb] by (auto simp add: gr_update_fold)
    then have "revise ?cs c = c" using gr_fold_facts(3) [OF d f fb] by blast
    ultimately show "revise ?cs2 c = c" by simp
  qed
qed

text \<open>
  C2, as amended. For a series that holds no timestamp twice and only finite timestamps,
  and a batch whose timestamps are all valid dates (finite), ingesting the batch twice in
  succession gives the same series as ingesting it once: the same entries in the same
  order. The series an ingest leaves is again such a series.
\<close>

theorem gr_update_idempotent:
  "distinct (map ts prev) \<and> fin_ts prev \<and> fin_ts (map (to_candle gt) batch)
     \<longrightarrow> gr_update gt (gr_update gt prev batch) batch = gr_update gt prev batch
         \<and> distinct (map ts (gr_update gt prev batch)) \<and> fin_ts (gr_update gt prev batch)"
  using gr_update_twice [of prev gt batch] gr_update_series [of prev gt batch] by blast

theorem gr_update_idempotent_witness:
  "gr_update example_getTime [flat_candle 120000 10]
     [example_record ''1970-01-01T00:02:00Z'' (Some (Fin 11)),
      example_record ''1970-01-01T00:01:00Z'' (Some (Fin 12))] =
     [to_candle example_getTime (example_record ''1970-01-01T00:01:00Z'' (Some (Fin 12))),
      to_candle example_getTime (example_record ''1970-01-01T00:02:00Z'' (Some (Fin 11)))]
   \<and> gr_update example_getTime
       [to_candle example_getTime (example_record ''1970-01-01T00:01:00Z'' (Some (Fin 12))),
        to_candle example_getTime (example_record ''1970-01-01T00:02:00Z'' (Some (Fin 11)))]
       [example_record ''1970-01-01T00:02:00Z'' (Some (Fin 11)),
        example_record ''1970-01-01T00:01:00Z'' (Some (Fin 12))] =
     [to_candle example_getTime (example_record ''1970-01-01T00:01:00Z'' (Some (Fin 12))),
      to_candle example_getTime (example_record ''1970-01-01T00:02:00Z'' (Some (Fin 11)))]"
proof -
  let ?prev = "[flat_candle 120000 10]"
  let ?batch = "[example_record ''1970-01-01T00:02:00Z'' (Some (Fin 11)),
      example_record ''1970-01-01T00:01:00Z'' (Some (Fin 12))]"
  have pre: "distinct (map ts ?prev) \<and> fin_ts ?prev \<and> fin_ts (map (to_candle example_getTime) ?batch)"
    by (simp add: fin_ts_def flat_candle_def to_candle_def example_getTime_def example_record_def)
  have once: "gr_update example_getTime ?prev ?batch =
     [to_candle example_getTime (example_record ''1970-01-01T00:01:00Z'' (Some (Fin 12))),
      to_candle example_getTime (example_record ''1970-01-01T00:02:00Z'' (Some (Fin 11)))]"
    by (simp add: gr_update_def gr_merge_def js_sort_def slice_last_def js_sub_def
        flat_candle_def to_candle_def example_getTime_def example_record_def)
  from gr_update_idempotent [of ?prev example_getTime ?batch] pre
  have "gr_update example_getTime (gr_update example_getTime ?prev ?batch) ?batch =
        gr_update example_getTime ?prev ?batch" by blast
  with once show ?thesis by simp
qed

text \<open>
  C2 as it is written fails for a record whose timestamp is no date: its timestamp is
  NaN, which \<open>===\<close> finds equal to nothing, so every ingest pushes the record again.
  One ingest of the batch leaves one candle, a second ingest two.
\<close>

theorem gr_update_twice_counterexample:
  "gr_update example_getTime [] [example_record ''soon'' (Some (Fin 11))] =
     [\<lparr>ts = NaN, open = Fin 10, high = Fin 12, low = Fin 9, close = Fin 11, volume = Fin 3\<rparr>]
   \<and> gr_update example_getTime
       [\<lparr>ts = NaN, open = Fin 10, high = Fin 12, low = Fin 9, close = Fin 11, volume = Fin 3\<rparr>]
       [example_record ''soon'' (Some (Fin 11))] =
     [\<lparr>ts = NaN, open = Fin 10, high = Fin 12, low = Fin 9, close = Fin 11, volume = Fin 3\<rparr>,
      \<lparr>ts = NaN, open = Fin 10, high = Fin 12, low = Fin 9, close = Fin 11, volume = Fin 3\<rparr>]"
  by (simp add: gr_update_def gr_merge_def js_sort_def slice_last_def js_sub_def
      to_candle_def example_getTime_def example_record_def)

text \<open>
  C8, as amended. For a series that holds no timestamp twice and only finite timestamps,
  and a batch whose timestamps are all valid dates: after the batch was ingested,
  ingesting it again with the close of its record \<open>i\<close> changed leaves the length of
  the series and the order of its timestamps as they were, and every entry whose
  timestamp is not that record's is the entry it was.
\<close>

theorem gr_revision_frame:
  "distinct (map ts prev) \<and> fin_ts prev \<and> fin_ts (map (to_candle gt) batch) \<and> i < length batch
     \<longrightarrow> length (gr_update gt (gr_update gt prev batch) (batch[i := (batch ! i)\<lparr>r_close := x\<rparr>]))
           = length (gr_update gt prev batch)
         \<and> map ts (gr_update gt (gr_update gt prev batch) (batch[i := (batch ! i)\<lparr>r_close := x\<rparr>]))
           = map ts (gr_update gt prev batch)
         \<and> (\<forall>j<length (gr_update gt prev batch).
               ts (gr_update gt prev batch ! j) \<noteq> gt (r_timestamp (batch ! i)) \<longrightarrow>
               gr_update gt (gr_update gt prev batch) (batch[i := (batch ! i)\<lparr>r_close := x\<rparr>]) ! j
               = gr_update gt prev batch ! j)"
proof (intro impI)
  assume a: "distinct (map ts prev) \<and> fin_ts prev \<and> fin_ts (map (to_candle gt) batch) \<and> i < length batch"
  let ?S = "gr_update gt prev batch"
  let ?b = "batch[i := (batch ! i)\<lparr>r_close := x\<rparr>]"
  from a gr_update_revised [of prev gt batch i x]
  have eq: "gr_update gt ?S ?b = map (revise (map (to_candle gt) ?b)) ?S"
    and same: "\<forall>c\<in>set ?S. ts c \<noteq> gt (r_timestamp (batch ! i)) \<longrightarrow>
           revise (map (to_candle gt) ?b) c = c"
    by blast+
  have "length (gr_update gt ?S ?b) = length ?S" by (simp add: eq)
  moreover have "map ts (gr_update gt ?S ?b) = map ts ?S"
    by (simp add: eq ts_comp_revise)
  moreover have "\<forall>j<length ?S. ts (?S ! j) \<noteq> gt (r_timestamp (batch ! i)) \<longrightarrow>
      gr_update gt ?S ?b ! j = ?S ! j"
    using same by (simp add: eq)
  ultimately show "length (gr_update gt ?S ?b) = length ?S
     \<and> map ts (gr_update gt ?S ?b) = map ts ?S
     \<and> (\<forall>j<length ?S. ts (?S ! j) \<noteq> gt (r_timestamp (batch ! i)) \<longrightarrow>
          gr_update gt ?S ?b ! j = ?S ! j)"
    by blast
qed

theorem gr_revision_frame_witness:
  "gr_update example_getTime []
     [example_record ''1970-01-01T00:02:00Z'' (Some (Fin 11)),
      example_record ''1970-01-01T00:01:00Z'' (Some (Fin 12))] =
     [to_candle example_getTime (example_record ''1970-01-01T00:01:00Z'' (Some (Fin 12))),
      to_candle example_getTime (example_record ''1970-01-01T00:02:00Z'' (Some (Fin 11)))]
   \<and> gr_update example_getTime
       [to_candle example_getTime (example_record ''1970-01-01T00:01:00Z'' (Some (Fin 12))),
        to_candle example_getTime (example_record ''1970-01-01T00:02:00Z'' (Some (Fin 11)))]
       [example_record ''1970-01-01T00:02:00Z'' (Some (Fin 5)),
        example_record ''1970-01-01T00:01:00Z'' (Some (Fin 12))] ! 0 =
     to_candle example_getTime (example_record ''1970-01-01T00:01:00Z'' (Some (Fin 12)))
   \<and> length (gr_update example_getTime
       [to_candle example_getTime (example_record ''1970-01-01T00:01:00Z'' (Some (Fin 12))),
        to_candle example_getTime (example_record ''1970-01-01T00:02:00Z'' (Some (Fin 11)))]
       [example_record ''1970-01-01T00:02:00Z'' (Some (Fin 5)),
        example_record ''1970-01-01T00:01:00Z'' (Some (Fin 12))]) = 2"
proof -
  let ?batch = "[example_record ''1970-01-01T00:02:00Z'' (Some (Fin 11)),
      example_record ''1970-01-01T00:01:00Z'' (Some (Fin 12))]"
  let ?S = "[to_candle example_getTime (example_record ''1970-01-01T00:01:00Z'' (Some (Fin 12))),
      to_candle example_getTime (example_record ''1970-01-01T00:02:00Z'' (Some (Fin 11)))]"
  have pre: "distinct (map ts []) \<and> fin_ts [] \<and> fin_ts (map (to_candle example_getTime) ?batch)
      \<and> (0::nat) < length ?batch"
    by (simp add: fin_ts_def to_candle_def example_getTime_def example_record_def)
  have once: "gr_update example_getTime [] ?batch = ?S"
    by (simp add: gr_update_def gr_merge_def js_sort_def slice_last_def js_sub_def
        to_candle_def example_getTime_def example_record_def)
  have b: "?batch[0 := (?batch ! 0)\<lparr>r_close := Some (Fin 5)\<rparr>] =
       [example_record ''1970-01-01T00:02:00Z'' (Some (Fin 5)),
        example_record ''1970-01-01T00:01:00Z'' (Some (Fin 12))]"
    by (simp add: example_record_def)
  have ne: "ts (?S ! 0) \<noteq> example_getTime (r_timestamp (?batch ! 0))"
    by (simp add: to_candle_def example_getTime_def example_record_def)
  from gr_revision_frame [of "[]" example_getTime ?batch 0 "Some (Fin 5)"] pre
  show ?thesis
    unfolding once b using ne by simp
qed

text \<open>
  C8 as it is written fails when the batch holds a record whose timestamp is no date:
  re-ingesting the batch with the close of its second record changed from 11 to 12
  updates that entry and pushes the first record once more, so the series grows from
  two entries to three.
\<close>

theorem gr_revision_counterexample:
  "gr_update example_getTime []
     [example_record ''soon'' (Some (Fin 11)),
      example_record ''1970-01-01T00:01:00Z'' (Some (Fin 11))] =
     [\<lparr>ts = NaN, open = Fin 10, high = Fin 12, low = Fin 9, close = Fin 11, volume = Fin 3\<rparr>,
      \<lparr>ts = Fin 60000, open = Fin 10, high = Fin 12, low = Fin 9, close = Fin 11, volume = Fin 3\<rparr>]
   \<and> gr_update example_getTime
       [\<lparr>ts = NaN, open = Fin 10, high = Fin 12, low = Fin 9, close = Fin 11, volume = Fin 3\<rparr>,
        \<lparr>ts = Fin 60000, open = Fin 10, high = Fin 12, low = Fin 9, close = Fin 11, volume = Fin 3\<rparr>]
       [example_record ''soon'' (Some (Fin 11)),
        example_record ''1970-01-01T00:01:00Z'' (Some (Fin 12))] =
     [\<lparr>ts = NaN, open = Fin 10, high = Fin 12, low = Fin 9, close = Fin 11, volume = Fin 3\<rparr>,
      \<lparr>ts = Fin 60000, open = Fin 10, high = Fin 12, low = Fin 9, close = Fin 12, volume = Fin 3\<rparr>,
      \<lparr>ts = NaN, open = Fin 10, high = Fin 12, low = Fin 9, close = Fin 11, volume = Fin 3\<rparr>]"
  by (simp add: gr_update_def gr_merge_def js_sort_def slice_last_def js_sub_def
      to_candle_def example_getTime_def example_record_def)

subsection \<open>Records that are not validated\<close>












subsection \<open>The bound of 100 and what is evicted\<close>

lemma set_gr_merge: "set (gr_merge xs c) \<subseteq> insert c (set xs)"
  using set_update_subset_insert [of xs _ c]
  by (auto simp add: gr_merge_def split: option.splits)

lemma fin_ts_gr_merge: "fin_ts xs \<Longrightarrow> is_fin (ts c) \<Longrightarrow> fin_ts (gr_merge xs c)"
  using set_gr_merge [of xs c] by (auto simp add: fin_ts_def)

lemma fin_ts_gr_fold: "fin_ts xs \<Longrightarrow> fin_ts cs \<Longrightarrow> fin_ts (foldl gr_merge xs cs)"
  by (induction cs arbitrary: xs) (simp_all add: fin_ts_simps fin_ts_gr_merge)

lemma gr_update_merged: "gr_update gt prev batch = slice_last 100 (gr_merged gt prev batch)"
  by (simp add: gr_update_def gr_merged_def)

lemma evicted_le_kept:
  assumes "sorted (map key xs)"
  shows "\<forall>e\<in>set (evicted n xs). \<forall>x\<in>set (slice_last n xs). key e \<le> key x"
proof -
  let ?k = "length xs - n"
  have "sorted (map key (take ?k xs) @ map key (drop ?k xs))"
    using assms by (metis append_take_drop_id map_append)
  then show ?thesis
    by (auto simp add: sorted_append evicted_def slice_last_def)
qed

lemma gr_evicts_least:
  assumes "fin_ts prev" and "fin_ts (map (to_candle gt) batch)"
  shows "\<forall>e\<in>set (evicted 100 (gr_merged gt prev batch)).
           \<forall>x\<in>set (gr_update gt prev batch). key e \<le> key x"
proof -
  let ?M = "foldl gr_merge prev (map (to_candle gt) batch)"
  have m: "gr_merged gt prev batch = js_sort ?M" by (simp add: gr_merged_def foldl_map)
  have "fin_ts ?M" using assms by (rule fin_ts_gr_fold)
  then have "gr_merged gt prev batch = sort_key key ?M" by (simp add: m js_sort_sort_key)
  then have "sorted (map key (gr_merged gt prev batch))" by simp
  from evicted_le_kept [OF this] show ?thesis by (simp add: gr_update_merged)
qed

lemma evicted_head: "length xs = n \<Longrightarrow> 0 < n \<Longrightarrow> evicted n (xs @ [x]) = [hd xs]"
  by (cases xs) (simp_all add: evicted_def)

lemma evicted_none: "length xs \<le> n \<Longrightarrow> evicted n xs = []"
  by (simp add: evicted_def)

lemma hl_update_append:
  assumes "prev = [] \<or> \<not> js_eq (ts (last prev)) (bucket_ts (time t))"
  shows "hl_update pf prev t = slice_last 100 (prev @ [new_candle pf t])"
  using hl_update_new [OF assms, of pf] by (simp add: new_candle_def)

lemma hl_update_same_length:
  assumes "prev \<noteq> []" and "js_eq (ts (last prev)) (bucket_ts (time t))"
  shows "length (hl_update pf prev t) = length prev"
  using assms by (simp add: hl_update_def Let_def)

text \<open>
  C6, as amended. After every sequence of events each of the two series holds at most
  100 candles. The GoldRush series is the last 100 of the merged series sorted by
  timestamp, so with finite timestamps every evicted entry has a timestamp no greater
  than any entry kept. A trade that continues the tail candle leaves the length of the
  Hyperliquid series as it is; a trade that appends a candle keeps the last 100 of the
  series with the new candle: nothing is evicted below 100 candles, at 100 the head of
  the series is evicted, the candle appended earliest, and where the series with the new
  candle is in ascending order of timestamps (trades arrive in order) every evicted
  entry has a timestamp no greater than any entry kept.
\<close>

theorem series_bounded:
  "length (hlCandles (run pf gt es)) \<le> 100 \<and> length (grCandles (run pf gt es)) \<le> 100
   \<and> gr_update gt prev batch = slice_last 100 (gr_merged gt prev batch)
   \<and> (fin_ts prev \<and> fin_ts (map (to_candle gt) batch) \<longrightarrow>
        (\<forall>e\<in>set (evicted 100 (gr_merged gt prev batch)).
           \<forall>x\<in>set (gr_update gt prev batch). key e \<le> key x))
   \<and> (hs \<noteq> [] \<and> js_eq (ts (last hs)) (bucket_ts (time t)) \<longrightarrow>
        length (hl_update pf hs t) = length hs)
   \<and> (hs = [] \<or> \<not> js_eq (ts (last hs)) (bucket_ts (time t)) \<longrightarrow>
        hl_update pf hs t = slice_last 100 (hs @ [new_candle pf t])
        \<and> (length hs < 100 \<longrightarrow> evicted 100 (hs @ [new_candle pf t]) = [])
        \<and> (length hs = 100 \<longrightarrow> evicted 100 (hs @ [new_candle pf t]) = [hd hs])
        \<and> (sorted (map key (hs @ [new_candle pf t])) \<longrightarrow>
             (\<forall>e\<in>set (evicted 100 (hs @ [new_candle pf t])).
                \<forall>x\<in>set (hl_update pf hs t). key e \<le> key x)))"
proof (intro conjI impI)
  show "length (hlCandles (run pf gt es)) \<le> 100" and "length (grCandles (run pf gt es)) \<le> 100"
    using run_lengths [of pf gt es] by simp_all
  show "gr_update gt prev batch = slice_last 100 (gr_merged gt prev batch)"
    by (rule gr_update_merged)
  show "\<forall>e\<in>set (evicted 100 (gr_merged gt prev batch)).
           \<forall>x\<in>set (gr_update gt prev batch). key e \<le> key x"
    if "fin_ts prev \<and> fin_ts (map (to_candle gt) batch)"
    using that gr_evicts_least by blast
  show "length (hl_update pf hs t) = length hs"
    if "hs \<noteq> [] \<and> js_eq (ts (last hs)) (bucket_ts (time t))"
    using that hl_update_same_length by blast
next
  assume a: "hs = [] \<or> \<not> js_eq (ts (last hs)) (bucket_ts (time t))"
  show eq: "hl_update pf hs t = slice_last 100 (hs @ [new_candle pf t])"
    using a by (rule hl_update_append)
  show "evicted 100 (hs @ [new_candle pf t]) = []" if "length hs < 100"
    using that by (simp add: evicted_none)
  show "evicted 100 (hs @ [new_candle pf t]) = [hd hs]" if "length hs = 100"
    using that by (simp add: evicted_head)
  show "\<forall>e\<in>set (evicted 100 (hs @ [new_candle pf t])).
                \<forall>x\<in>set (hl_update pf hs t). key e \<le> key x"
    if "sorted (map key (hs @ [new_candle pf t]))"
    using evicted_le_kept [OF that, of 100] by (simp only: eq)
qed

lemma new_candle_minute:
  "new_candle example_parseFloat (example_trade (60000 * int i) ''1'' ''1'') =
     flat_candle (of_nat i * 60000) 1"
  by (simp add: new_candle_def example_trade_def example_parseFloat_def flat_candle_def
      bucket_ts_int)

lemma last_minute_candles: "0 < n \<Longrightarrow> last (minute_candles n) = flat_candle (of_nat n * 60000) 1"
  by (cases n) (simp_all add: minute_candles_def)

lemma minute_candles_Nil: "minute_candles n = [] \<longleftrightarrow> n = 0"
  by (simp add: minute_candles_def)

lemma hl_trades_minutes:
  "n \<le> 100 \<Longrightarrow> hl_trades example_parseFloat [] (minute_trades n) = minute_candles n"
proof (induction n)
  case 0
  show ?case by (simp add: hl_trades_def minute_trades_def minute_candles_def)
next
  case (Suc n)
  let ?t = "example_trade (60000 * int (Suc n)) ''1'' ''1''"
  have IH: "hl_trades example_parseFloat [] (minute_trades n) = minute_candles n"
    using Suc by simp
  have b: "bucket_ts (time ?t) = Fin (of_nat (Suc n) * 60000)"
    by (simp add: bucket_ts_int example_trade_def)
  have other: "minute_candles n = [] \<or> \<not> js_eq (ts (last (minute_candles n))) (bucket_ts (time ?t))"
  proof (cases n)
    case 0
    then show ?thesis by (simp add: minute_candles_Nil)
  next
    case (Suc m)
    then show ?thesis
      unfolding b by (simp add: last_minute_candles flat_candle_def)
  qed
  have len: "length (minute_candles n @ [new_candle example_parseFloat ?t]) \<le> 100"
    using Suc.prems by (simp add: minute_candles_def)
  have "hl_trades example_parseFloat [] (minute_trades (Suc n)) =
        hl_update example_parseFloat (minute_candles n) ?t"
    using IH by (simp add: minute_trades_def hl_trades_def)
  also have "\<dots> = minute_candles n @ [new_candle example_parseFloat ?t]"
    using hl_update_append [OF other] len by (simp add: slice_last_short)
  also have "\<dots> = minute_candles (Suc n)"
    unfolding new_candle_minute by (simp add: minute_candles_def)
  finally show ?case .
qed

text \<open>
  C6 as it is written fails for the Hyperliquid series when a trade arrives late. One
  hundred trades, a minute apart, give the candles of buckets 60000 to 6000000. A trade
  at 1000 ms then evicts the head, the candle of bucket 60000, and the series keeps the
  new candle of bucket 0: the entry evicted is not the one of the smallest timestamp.
\<close>

theorem eviction_counterexample:
  "hl_trades example_parseFloat [] (minute_trades 100) = minute_candles 100
   \<and> length (minute_candles 100) = 100
   \<and> hd (minute_candles 100) = flat_candle 60000 1
   \<and> hl_update example_parseFloat (minute_candles 100) (example_trade 1000 ''1'' ''1'') =
       tl (minute_candles 100) @ [flat_candle 0 1]"
proof -
  let ?t = "example_trade 1000 ''1'' ''1''"
  have 1: "hl_trades example_parseFloat [] (minute_trades 100) = minute_candles 100"
    by (rule hl_trades_minutes) simp
  have 2: "length (minute_candles 100) = 100" by (simp add: minute_candles_def)
  have 3: "hd (minute_candles 100) = flat_candle 60000 1"
    by (simp add: minute_candles_def upt_conv_Cons)
  have "\<not> js_eq (ts (last (minute_candles 100))) (bucket_ts (time ?t))"
    by (simp add: last_minute_candles flat_candle_def bucket_ts_int example_trade_def)
  then have "hl_update example_parseFloat (minute_candles 100) ?t =
       slice_last 100 (minute_candles 100 @ [new_candle example_parseFloat ?t])"
    by (intro hl_update_append) simp
  moreover have "new_candle example_parseFloat ?t = flat_candle 0 1"
    by (simp add: new_candle_def example_trade_def example_parseFloat_def flat_candle_def
      bucket_ts_int)
  moreover have "slice_last 100 (minute_candles 100 @ [flat_candle 0 1]) =
      tl (minute_candles 100) @ [flat_candle 0 1]"
    using 2 by (cases "minute_candles 100") (simp_all add: slice_last_def)
  ultimately show ?thesis using 1 2 3 by simp
qed

lemma key_minute: "map key (minute_candles n) = map (\<lambda>i. of_nat i * 60000) [1..<Suc n]"
  by (simp add: minute_candles_def key_def flat_candle_def)

lemma sorted_minute_candles: "sorted (map key (minute_candles n))"
proof -
  have "sorted_wrt (\<lambda>i j. (of_nat i * 60000 :: rat) \<le> of_nat j * 60000) [1..<Suc n]"
    by (rule sorted_wrt_mono_rel [of _ "(\<le>)"]) (simp_all del: upt_Suc)
  then show ?thesis
    unfolding key_minute by (simp only: sorted_map)
qed

lemma minute_candles_snoc:
  "minute_candles (Suc n) = minute_candles n @ [flat_candle (of_nat (Suc n) * 60000) 1]"
  by (simp add: minute_candles_def)

lemma fin_ts_minute: "fin_ts (minute_candles n)"
  by (simp add: fin_ts_def minute_candles_def flat_candle_def)

lemma distinct_minute: "distinct (map key (minute_candles n))"
  unfolding key_minute by (simp add: distinct_map inj_on_def)

lemma minute_low:
  assumes "c \<in> set (minute_candles n)"
  shows "60000 \<le> key c"
proof -
  from assms obtain i where "1 \<le> i" and c: "c = flat_candle (of_nat i * 60000) 1"
    by (auto simp add: minute_candles_def)
  then have "(1 :: rat) \<le> of_nat i" by simp
  then show ?thesis by (simp add: c key_def flat_candle_def)
qed

lemma gr_update_full:
  shows "gr_update example_getTime (minute_candles 100)
      [example_record ''1970-01-01T00:00:30Z'' (Some (Fin 11))] = minute_candles 100"
    and "evicted 100 (gr_merged example_getTime (minute_candles 100)
      [example_record ''1970-01-01T00:00:30Z'' (Some (Fin 11))]) =
      [to_candle example_getTime (example_record ''1970-01-01T00:00:30Z'' (Some (Fin 11)))]"
proof -
  let ?c = "to_candle example_getTime (example_record ''1970-01-01T00:00:30Z'' (Some (Fin 11)))"
  have t: "ts ?c = Fin 30000" and k: "key ?c = 30000"
    by (simp_all add: to_candle_def example_record_def example_getTime_def key_def)
  have "\<forall>x\<in>set (minute_candles 100). \<not> js_eq (ts x) (ts ?c)"
  proof
    fix x assume x: "x \<in> set (minute_candles 100)"
    then have "is_fin (ts x)" using fin_ts_minute by (simp add: fin_ts_def)
    moreover have "key x \<noteq> key ?c" using minute_low [OF x] k by simp
    ultimately show "\<not> js_eq (ts x) (ts ?c)"
      by (metis js_eq_fin key_def)
  qed
  then have m: "gr_merge (minute_candles 100) ?c = minute_candles 100 @ [?c]"
    by (simp add: gr_merge_def findIndex_None [THEN iffD2])
  have f: "fin_ts (minute_candles 100 @ [?c])"
    using fin_ts_minute by (simp add: fin_ts_simps t)
  have d: "distinct (map key (minute_candles 100 @ [?c]))"
    using distinct_minute [of 100] minute_low [of _ 100] k by fastforce
  have low: "\<forall>n\<in>set [?c]. \<forall>x\<in>set (minute_candles 100). key n < key x"
  proof (intro ballI)
    fix n x assume "n \<in> set [?c]" and "x \<in> set (minute_candles 100)"
    then show "key n < key x" using minute_low [of x 100] k by simp
  qed
  have "sort_key key (minute_candles 100 @ [?c]) = sort_key key [?c] @ minute_candles 100"
    using sorted_minute_candles d low by (rule sort_key_append_low)
  then have s: "gr_merged example_getTime (minute_candles 100)
      [example_record ''1970-01-01T00:00:30Z'' (Some (Fin 11))] = ?c # minute_candles 100"
    using f by (simp add: gr_merged_def m js_sort_sort_key)
  have len: "length (minute_candles 100) = 100" by (simp add: minute_candles_def)
  show "gr_update example_getTime (minute_candles 100)
      [example_record ''1970-01-01T00:00:30Z'' (Some (Fin 11))] = minute_candles 100"
    using len by (simp add: gr_update_merged s slice_last_def)
  show "evicted 100 (gr_merged example_getTime (minute_candles 100)
      [example_record ''1970-01-01T00:00:30Z'' (Some (Fin 11))]) = [?c]"
    using len by (simp add: s evicted_def)
qed


theorem series_bounded_witness:
  "length (hlCandles (run example_parseFloat example_getTime
      [HlMessage ''trades'' [example_trade 1000 ''5'' ''1'']])) \<le> 100
   \<and> gr_update example_getTime (minute_candles 100)
        [example_record ''1970-01-01T00:00:30Z'' (Some (Fin 11))] = minute_candles 100
   \<and> evicted 100 (gr_merged example_getTime (minute_candles 100)
        [example_record ''1970-01-01T00:00:30Z'' (Some (Fin 11))]) =
      [to_candle example_getTime (example_record ''1970-01-01T00:00:30Z'' (Some (Fin 11)))]
   \<and> key (to_candle example_getTime (example_record ''1970-01-01T00:00:30Z'' (Some (Fin 11))))
      \<le> key (flat_candle 60000 1)
   \<and> length (hl_update example_parseFloat [flat_candle 0 5] (example_trade 2000 ''6'' ''2'')) = 1
   \<and> evicted 100 ([flat_candle 0 5] @ [new_candle example_parseFloat (example_trade 61000 ''7'' ''1'')]) = []
   \<and> hl_update example_parseFloat (minute_candles 100) (example_trade 6060000 ''1'' ''1'') =
       slice_last 100 (minute_candles 100 @ [flat_candle 6060000 1])
   \<and> evicted 100 (minute_candles 100 @ [flat_candle 6060000 1]) = [flat_candle 60000 1]
   \<and> key (flat_candle 60000 1) \<le> key (flat_candle 6060000 1)"
proof -
  let ?prev = "minute_candles 100"
  let ?r = "example_record ''1970-01-01T00:00:30Z'' (Some (Fin 11))"
  let ?es = "[HlMessage ''trades'' [example_trade 1000 ''5'' ''1'']]"
  let ?t = "example_trade 6060000 ''1'' ''1''"
  let ?u = "example_trade 2000 ''6'' ''2''"
  let ?v = "example_trade 61000 ''7'' ''1''"
  have fin: "fin_ts ?prev \<and> fin_ts (map (to_candle example_getTime) [?r])"
    using fin_ts_minute [of 100]
    by (simp add: fin_ts_def to_candle_def example_getTime_def example_record_def)
  have same: "[flat_candle 0 5] \<noteq> [] \<and>
      js_eq (ts (last [flat_candle 0 5])) (bucket_ts (time ?u))"
    by (simp add: flat_candle_def bucket_ts_int example_trade_def)
  have later: "[flat_candle 0 5] = [] \<or>
      \<not> js_eq (ts (last [flat_candle 0 5])) (bucket_ts (time ?v))"
    by (simp add: flat_candle_def bucket_ts_int example_trade_def)
  have other: "?prev = [] \<or> \<not> js_eq (ts (last ?prev)) (bucket_ts (time ?t))"
    by (simp add: last_minute_candles flat_candle_def bucket_ts_int example_trade_def)
  have len: "length ?prev = 100" by (simp add: minute_candles_def)
  have new: "new_candle example_parseFloat ?t = flat_candle 6060000 1"
    using new_candle_minute [of 101] by simp
  have hd: "hd ?prev = flat_candle 60000 1"
    by (simp add: minute_candles_def upt_conv_Cons)
  have "minute_candles 101 = ?prev @ [flat_candle 6060000 1]"
    using minute_candles_snoc [of 100] by simp
  then have sorted: "sorted (map key (?prev @ [new_candle example_parseFloat ?t]))"
    using sorted_minute_candles [of 101] by (simp only: new)
  note a = series_bounded [of example_parseFloat example_getTime ?es ?prev "[?r]"
      "[flat_candle 0 5]" ?u]
  note b = series_bounded [of example_parseFloat example_getTime ?es ?prev "[?r]" ?prev ?t]
  note c = series_bounded [of example_parseFloat example_getTime ?es ?prev "[?r]"
      "[flat_candle 0 5]" ?v]
  from a have 1: "length (hlCandles (run example_parseFloat example_getTime ?es)) \<le> 100"
    by blast
  from a fin have 2: "\<forall>e\<in>set (evicted 100 (gr_merged example_getTime ?prev [?r])).
      \<forall>x\<in>set (gr_update example_getTime ?prev [?r]). key e \<le> key x" by blast
  from a same have 3: "length (hl_update example_parseFloat [flat_candle 0 5] ?u)
      = length [flat_candle 0 5]" by blast
  from b other have 4: "hl_update example_parseFloat ?prev ?t =
       slice_last 100 (?prev @ [new_candle example_parseFloat ?t])" by blast
  from b other len have 5: "evicted 100 (?prev @ [new_candle example_parseFloat ?t]) =
       [hd ?prev]" by blast
  from b other sorted have 6: "\<forall>e\<in>set (evicted 100 (?prev @ [new_candle example_parseFloat ?t])).
       \<forall>x\<in>set (hl_update example_parseFloat ?prev ?t). key e \<le> key x" by blast
  from c later have 7: "evicted 100 ([flat_candle 0 5] @ [new_candle example_parseFloat ?v]) = []"
    by simp
  have in1: "flat_candle 60000 1 \<in> set (minute_candles 100)"
    using hd len by (metis hd_in_set length_0_conv zero_neq_numeral)
  have ev: "evicted 100 (gr_merged example_getTime ?prev [?r]) = [to_candle example_getTime ?r]"
    by (rule gr_update_full(2))
  have up: "gr_update example_getTime ?prev [?r] = ?prev"
    by (rule gr_update_full(1))
  from 2 have "\<forall>x\<in>set ?prev. key (to_candle example_getTime ?r) \<le> key x"
    unfolding ev up by simp
  then have 8: "key (to_candle example_getTime ?r) \<le> key (flat_candle 60000 1)"
    using in1 by blast
  have "flat_candle 6060000 1 \<in> set (hl_update example_parseFloat ?prev ?t)"
    unfolding 4 new using len by (simp add: slice_last_def)
  then have 9: "key (flat_candle 60000 1) \<le> key (flat_candle 6060000 1)"
    using 6 by (simp add: 5 hd)
  show ?thesis
    using 1 3 4 5 7 8 9 by (simp add: gr_update_full new hd)
qed

end
